theory Spec2Isabelle
  imports Main "HOL-Library.Sublist"
begin

section \<open>The CarDD converter: restructure_data.py\<close>

text \<open>
  The script reads three COCO annotation files and copies every annotated image into
  \<open>output_dir/split/category/\<close>. Everything it does is an effect on the file system and
  on standard output, so the embedding threads a \<open>world\<close> through the code: the file
  system, the lines printed, and the history of the \<open>shutil.copy2\<close> calls that returned.
  An uncaught Python exception is the outcome \<open>Raised\<close>, which keeps the world as it was
  when the exception left the function.
\<close>

subsection \<open>Paths (posixpath)\<close>

definition sep :: char where
  "sep = CHR ''/''"

text \<open>\<open>posixpath.join\<close> for one further component: an absolute component replaces what
  came before, otherwise it is appended after exactly one separator.\<close>

definition join2 :: "string \<Rightarrow> string \<Rightarrow> string" where
  "join2 path b =
     (if take 1 b = [sep] then b
      else if path = [] \<or> last path = sep then path @ b
      else path @ [sep] @ b)"

definition os_path_join :: "string \<Rightarrow> string list \<Rightarrow> string" where
  "os_path_join a p = foldl join2 a p"

text \<open>\<open>posixpath.split\<close>: the text up to the last separator and the text after it; the
  separators that end the head are dropped unless the head is made of separators only.
  \<open>posixpath.basename\<close> is the second part.\<close>

definition os_path_split :: "string \<Rightarrow> string \<times> string" where
  "os_path_split p =
     (let head = rev (dropWhile (\<lambda>c. c \<noteq> sep) (rev p));
          tail = rev (takeWhile (\<lambda>c. c \<noteq> sep) (rev p))
      in (if head \<noteq> [] \<and> \<not> list_all (\<lambda>c. c = sep) head
          then rev (dropWhile (\<lambda>c. c = sep) (rev head)) else head, tail))"

definition os_path_basename :: "string \<Rightarrow> string" where
  "os_path_basename p = rev (takeWhile (\<lambda>c. c \<noteq> sep) (rev p))"

text \<open>\<open>p.split('/')\<close>: the components of a path, empty ones included.\<close>

fun split_sep :: "string \<Rightarrow> string list" where
  "split_sep [] = [[]]"
| "split_sep (c # cs) =
     (if c = sep then [] # split_sep cs
      else (case split_sep cs of [] \<Rightarrow> [[c]] | w # ws \<Rightarrow> (c # w) # ws))"

subsection \<open>The file system\<close>

text \<open>
  A file system is a map from keys to nodes. A key is the list of the names on the way
  to a node, from the working directory, or from the root for a key that starts with
  \<open>/\<close>, or from a directory above the working directory for a key that starts with
  \<open>..\<close>. A regular file has its bytes and the metadata that \<open>copy2\<close> carries over (mode
  and time stamps, one opaque number here). The model has no symbolic links, no hard
  links, no permissions and no case folding. It does not know where the working
  directory lies under the root, nor the names of the directories above it: nodes
  with different keys are different nodes.
\<close>

datatype node = File string nat | Dir

type_synonym filesystem = "string list \<Rightarrow> node option"

datatype error =
    KeyError int
  | IndexError
  | FileNotFoundError
  | FileExistsError
  | NotADirectoryError
  | IsADirectoryError
  | SameFileError
  | JSONDecodeError

text \<open>The working directory, the root and the directories above the working directory
  always exist.\<close>

definition implicit_dir :: "string list \<Rightarrow> bool" where
  "implicit_dir k = list_all (\<lambda>c. c = ''/'' \<or> c = ''..'') k"

definition lookup :: "filesystem \<Rightarrow> string list \<Rightarrow> node option" where
  "lookup f k = (if implicit_dir k then Some Dir else f k)"

text \<open>
  How the operating system reads a path: component by component, from the root or from
  the working directory. Before it reads a component, the node it stands at must be a
  directory. An empty component and \<open>.\<close> stay there, \<open>..\<close> goes to the directory above
  (the root is above itself), a name goes to the node of that name, which need not
  exist. So \<open>x/..\<close> fails when \<open>x\<close> is missing or a regular file, and a path that ends
  in a separator names a directory or nothing.
\<close>

definition parent_key :: "string list \<Rightarrow> string list" where
  "parent_key k =
     (if k = [] \<or> last k = ''..'' then k @ [''..'']
      else if k = [''/''] then k
      else butlast k)"

fun walk :: "filesystem \<Rightarrow> string list \<Rightarrow> string list \<Rightarrow> error + string list" where
  "walk f cur [] = Inr cur"
| "walk f cur (c # cs) =
     (case lookup f cur of
        None \<Rightarrow> Inl FileNotFoundError
      | Some (File b st) \<Rightarrow> Inl NotADirectoryError
      | Some Dir \<Rightarrow>
          walk f (if c = [] \<or> c = ''.'' then cur
                  else if c = ''..'' then parent_key cur
                  else cur @ [c]) cs)"

definition start_key :: "string \<Rightarrow> string list" where
  "start_key p = (if take 1 p = [sep] then [''/''] else [])"

definition resolve :: "filesystem \<Rightarrow> string \<Rightarrow> error + string list" where
  "resolve f p = (if p = [] then Inl FileNotFoundError else walk f (start_key p) (split_sep p))"

text \<open>\<open>os.stat\<close>, and \<open>os.path.exists\<close> and \<open>os.path.isdir\<close>, which call it.\<close>

definition os_stat :: "filesystem \<Rightarrow> string \<Rightarrow> error + node" where
  "os_stat f p =
     (case resolve f p of
        Inl e \<Rightarrow> Inl e
      | Inr k \<Rightarrow> (case lookup f k of None \<Rightarrow> Inl FileNotFoundError | Some n \<Rightarrow> Inr n))"

definition os_path_exists :: "filesystem \<Rightarrow> string \<Rightarrow> bool" where
  "os_path_exists f p = (case os_stat f p of Inl e \<Rightarrow> False | Inr n \<Rightarrow> True)"

definition os_path_isdir :: "filesystem \<Rightarrow> string \<Rightarrow> bool" where
  "os_path_isdir f p = (os_stat f p = Inr Dir)"

text \<open>The components of a path without the empty ones that its trailing separators
  make.\<close>

definition named_components :: "string \<Rightarrow> string list" where
  "named_components p = rev (dropWhile (\<lambda>c. c = []) (rev (split_sep p)))"

text \<open>
  \<open>os.mkdir\<close>: the directory that is to hold the new one must exist; the new name must
  not exist, and \<open>.\<close> and \<open>..\<close> always do.
\<close>

definition os_mkdir :: "filesystem \<Rightarrow> string \<Rightarrow> error + filesystem" where
  "os_mkdir f p =
     (if p = [] then Inl FileNotFoundError
      else if named_components p = [] then Inl FileExistsError
      else (case walk f (start_key p) (butlast (named_components p) @ [[]]) of
              Inl e \<Rightarrow> Inl e
            | Inr dir \<Rightarrow>
              (let name = last (named_components p) in
               if name = ''.'' \<or> name = ''..'' then Inl FileExistsError
               else (case lookup f (dir @ [name]) of
                       None \<Rightarrow> Inr (f(dir @ [name] \<mapsto> Dir))
                     | Some n \<Rightarrow> Inl FileExistsError))))"

text \<open>
  \<open>os.makedirs(name, exist_ok=True)\<close>, as the standard library has it:
  \<^verbatim>\<open>
    head, tail = path.split(name)
    if not tail:
        head, tail = path.split(head)
    if head and tail and not path.exists(head):
        try:
            makedirs(head, exist_ok=exist_ok)
        except FileExistsError:
            pass
        if tail == curdir:
            return
    try:
        mkdir(name, mode)
    except OSError:
        if not exist_ok or not path.isdir(name):
            raise
  \<close>
  An error keeps the directories made before it.
\<close>

definition makedirs_parts :: "string \<Rightarrow> string \<times> string" where
  "makedirs_parts name =
     (if snd (os_path_split name) = [] then os_path_split (fst (os_path_split name))
      else os_path_split name)"

definition mkdir_exist_ok :: "filesystem \<Rightarrow> string \<Rightarrow> (error \<times> filesystem) + filesystem" where
  "mkdir_exist_ok f name =
     (case os_mkdir f name of
        Inr f' \<Rightarrow> Inr f'
      | Inl e \<Rightarrow> if os_path_isdir f name then Inr f else Inl (e, f))"

function os_makedirs :: "filesystem \<Rightarrow> string \<Rightarrow> (error \<times> filesystem) + filesystem" where
  "os_makedirs f name =
     (let head = fst (makedirs_parts name); tail = snd (makedirs_parts name)
      in if head \<noteq> [] \<and> tail \<noteq> [] \<and> \<not> os_path_exists f head then
           (case os_makedirs f head of
              Inl (e, f1) \<Rightarrow>
                if e = FileExistsError
                then (if tail = ''.'' then Inr f1 else mkdir_exist_ok f1 name)
                else Inl (e, f1)
            | Inr f1 \<Rightarrow> if tail = ''.'' then Inr f1 else mkdir_exist_ok f1 name)
         else mkdir_exist_ok f name)"
  by pat_completeness auto

termination
proof (relation "measure (\<lambda>(f, name). length name)")
  show "wf (measure (\<lambda>(f, name). length name))" by simp
next
  fix f :: filesystem and name head tail
  assume head: "head = fst (makedirs_parts name)" and tail: "tail = snd (makedirs_parts name)"
    and c: "head \<noteq> [] \<and> tail \<noteq> [] \<and> \<not> os_path_exists f head"
  have split_len: "length (fst (os_path_split p)) + length (snd (os_path_split p)) \<le> length p"
    for p
  proof -
    let ?h = "rev (dropWhile (\<lambda>c. c \<noteq> sep) (rev p))"
    let ?t = "rev (takeWhile (\<lambda>c. c \<noteq> sep) (rev p))"
    have "length (takeWhile (\<lambda>c. c \<noteq> sep) (rev p)) + length (dropWhile (\<lambda>c. c \<noteq> sep) (rev p))
            = length (rev p)"
      by (metis length_append takeWhile_dropWhile_id)
    then have "length ?h + length ?t = length p" by simp
    moreover have "length (rev (dropWhile (\<lambda>c. c = sep) (rev ?h))) \<le> length ?h"
      using length_dropWhile_le [of "\<lambda>c. c = sep" "rev ?h"] by simp
    ultimately show ?thesis
      by (simp add: os_path_split_def Let_def)
  qed
  have "length head + length tail \<le> length name"
  proof (cases "snd (os_path_split name) = []")
    case True
    then have "length head + length tail \<le> length (fst (os_path_split name))"
      using split_len [of "fst (os_path_split name)"] head tail
      by (simp add: makedirs_parts_def)
    also have "\<dots> \<le> length name"
      using split_len [of name] by simp
    finally show ?thesis .
  next
    case False
    then show ?thesis
      using split_len [of name] head tail by (simp add: makedirs_parts_def)
  qed
  with c have "length head < length name"
    by (cases tail) auto
  then show "((f, head), (f, name)) \<in> measure (\<lambda>(f, name). length name)"
    by simp
qed

declare os_makedirs.simps [simp del]

text \<open>Opening a file for writing and writing it: the directory that is to hold the file
  must exist, and the name must not be that of a directory.\<close>

definition open_write :: "filesystem \<Rightarrow> string \<Rightarrow> string \<Rightarrow> nat \<Rightarrow> error + filesystem" where
  "open_write f p b st =
     (if p = [] then Inl FileNotFoundError
      else if named_components p = [] then Inl IsADirectoryError
      else (case walk f (start_key p) (butlast (named_components p) @ [[]]) of
              Inl e \<Rightarrow> Inl e
            | Inr dir \<Rightarrow>
              (let name = last (named_components p) in
               if name = ''.'' \<or> name = ''..'' then Inl IsADirectoryError
               else (case lookup f (dir @ [name]) of
                       Some Dir \<Rightarrow> Inl IsADirectoryError
                     | Some (File b' st') \<Rightarrow>
                         if named_components p \<noteq> split_sep p then Inl NotADirectoryError
                         else Inr (f(dir @ [name] \<mapsto> File b st))
                     | None \<Rightarrow>
                         if named_components p \<noteq> split_sep p then Inl IsADirectoryError
                         else Inr (f(dir @ [name] \<mapsto> File b st))))))"

text \<open>\<open>os.path.samefile\<close> inside a \<open>try\<close>: two paths that lead to one existing node.\<close>

definition same_file :: "filesystem \<Rightarrow> string \<Rightarrow> string \<Rightarrow> bool" where
  "same_file f a b =
     (case resolve f a of
        Inl e \<Rightarrow> False
      | Inr k \<Rightarrow> lookup f k \<noteq> None \<and> resolve f b = Inr k)"

text \<open>
  \<open>shutil.copy2(src, dst)\<close>: a destination that is a directory stands for the file of the
  source's base name inside it. Copying a file onto itself is refused, a directory is
  no source, and then the destination is opened for writing; \<open>shutil.copyfile\<close> turns the
  \<open>IsADirectoryError\<close> of a destination that does not exist into \<open>FileNotFoundError\<close>.
  The copy has the bytes and the metadata of the source.
\<close>

definition shutil_copy2 :: "filesystem \<Rightarrow> string \<Rightarrow> string \<Rightarrow> error + filesystem" where
  "shutil_copy2 f src dst =
     (let dst' = (if os_path_isdir f dst then os_path_join dst [os_path_basename src] else dst)
      in if same_file f src dst' then Inl SameFileError
         else (case os_stat f src of
                 Inl e \<Rightarrow> Inl e
               | Inr Dir \<Rightarrow> Inl IsADirectoryError
               | Inr (File b st) \<Rightarrow>
                   (case open_write f dst' b st of
                      Inl e \<Rightarrow>
                        Inl (if e = IsADirectoryError \<and> \<not> os_path_exists f dst'
                             then FileNotFoundError else e)
                    | Inr f' \<Rightarrow> Inr f')))"

text \<open>\<open>open(path, 'r')\<close> followed by reading the whole file.\<close>

definition open_read :: "filesystem \<Rightarrow> string \<Rightarrow> error + string" where
  "open_read f p =
     (case os_stat f p of
        Inl e \<Rightarrow> Inl e
      | Inr Dir \<Rightarrow> Inl IsADirectoryError
      | Inr (File b st) \<Rightarrow> Inr b)"

subsection \<open>The annotation file\<close>

text \<open>
  The records of the COCO file, with the keys the script reads: \<open>id\<close> and \<open>name\<close> of a
  category, \<open>id\<close> and \<open>file_name\<close> of an image, \<open>image_id\<close> and \<open>category_id\<close> of an
  annotation. Identifiers are integers and names are strings.
\<close>

record category =
  cat_id :: int
  cat_name :: string

record image =
  img_id :: int
  file_name :: string

record annotation =
  image_id :: int
  category_id :: int

record coco =
  categories :: "category list"
  images :: "image list"
  annotations :: "annotation list"

subsection \<open>The world and the outcome of a call\<close>

record world =
  files :: filesystem
  stdout :: "string list"
  copied :: "(int \<times> string \<times> string) list"

text \<open>\<open>copied\<close> has one entry (image id, source, destination) for every call of
  \<open>shutil.copy2\<close> that returned, in the order of the calls, with the arguments as the
  script passed them. The script cannot read it.\<close>

datatype outcome = Done world | Raised error world

fun world_of :: "outcome \<Rightarrow> world" where
  "world_of (Done w) = w"
| "world_of (Raised e w) = w"

fun and_then :: "outcome \<Rightarrow> (world \<Rightarrow> outcome) \<Rightarrow> outcome" where
  "and_then (Done w) k = k w"
| "and_then (Raised e w) k = Raised e w"

definition print :: "string \<Rightarrow> world \<Rightarrow> world" where
  "print s w = w\<lparr>stdout := stdout w @ [s]\<rparr>"

subsection \<open>process_split\<close>

text \<open>Line 41 and line 54: dictionary comprehensions, a later entry with the same id
  replaces an earlier one.\<close>

definition category_map :: "category list \<Rightarrow> (int \<rightharpoonup> string)" where
  "category_map cats = foldl (\<lambda>m cat. m(cat_id cat \<mapsto> cat_name cat)) Map.empty cats"

definition image_map :: "image list \<Rightarrow> (int \<rightharpoonup> string)" where
  "image_map imgs = foldl (\<lambda>m img. m(img_id img \<mapsto> file_name img)) Map.empty imgs"

text \<open>
  A Python set of strings iterates in an order that depends on the hashes of its
  elements, which change from one run of the interpreter to the next, and on the
  insertions made. The model keeps a set as the list of its elements in the order of
  their first insertion, and takes what \<open>list(s)\<close> returns as a parameter \<open>set_order\<close> of
  the run, applied to that list. \<open>set_iteration\<close> says what every interpreter
  guarantees: the elements of the set, as many as the set has.
\<close>

definition set_add :: "string list \<Rightarrow> string \<Rightarrow> string list" where
  "set_add s x = (if x \<in> set s then s else s @ [x])"

definition set_iteration :: "(string list \<Rightarrow> string list) \<Rightarrow> bool" where
  "set_iteration set_order =
     (\<forall>s. set (set_order s) = set s \<and> length (set_order s) = length s)"

text \<open>\<open>image_categories[image_id].add(category_name)\<close> on a \<open>defaultdict(set)\<close>: a
  dictionary keeps its keys in the order of their first insertion.\<close>

fun add_category :: "(int \<times> string list) list \<Rightarrow> int \<Rightarrow> string \<Rightarrow> (int \<times> string list) list" where
  "add_category [] i x = [(i, set_add [] x)]"
| "add_category ((j, s) # rest) i x =
     (if j = i then (j, set_add s x) # rest else (j, s) # add_category rest i x)"

text \<open>Lines 47 to 51: the loop over the annotations. A category id that is no key of
  \<open>category_map\<close> raises \<open>KeyError\<close>.\<close>

fun image_categories ::
  "(int \<rightharpoonup> string) \<Rightarrow> annotation list \<Rightarrow> (int \<times> string list) list
     \<Rightarrow> error + (int \<times> string list) list" where
  "image_categories cm [] ic = Inr ic"
| "image_categories cm (ann # anns) ic =
     (case cm (category_id ann) of
        None \<Rightarrow> Inl (KeyError (category_id ann))
      | Some category_name \<Rightarrow> image_categories cm anns (add_category ic (image_id ann) category_name))"

text \<open>Lines 59 to 73: the body of the loop over \<open>image_categories.items()\<close>.\<close>

definition process_image ::
  "(string list \<Rightarrow> string list) \<Rightarrow> string \<Rightarrow> string \<Rightarrow> string \<Rightarrow> (int \<rightharpoonup> string)
     \<Rightarrow> int \<times> string list \<Rightarrow> world \<Rightarrow> outcome" where
  "process_image set_order output_dir img_dir split_name imap item w =
     (case imap (fst item) of
        None \<Rightarrow> Raised (KeyError (fst item)) w
      | Some filename \<Rightarrow>
        (case set_order (snd item) of
           [] \<Rightarrow> Raised IndexError w
         | category # others \<Rightarrow>
           (let category_dir = os_path_join output_dir [split_name, category] in
            case os_makedirs (files w) category_dir of
              Inl (e, f1) \<Rightarrow> Raised e (w\<lparr>files := f1\<rparr>)
            | Inr f1 \<Rightarrow>
              (let src = os_path_join img_dir [filename];
                   dst = os_path_join category_dir [filename];
                   w1 = w\<lparr>files := f1\<rparr>
               in if os_path_exists f1 src then
                    (case shutil_copy2 f1 src dst of
                       Inl e \<Rightarrow> Raised e w1
                     | Inr f2 \<Rightarrow>
                       Done (print (''Copied '' @ filename @ '' to '' @ split_name @ ''/'' @ category @ ''/'')
                              (w1\<lparr>files := f2, copied := copied w1 @ [(fst item, src, dst)]\<rparr>)))
                  else Done w1))))"

fun process_images ::
  "(string list \<Rightarrow> string list) \<Rightarrow> string \<Rightarrow> string \<Rightarrow> string \<Rightarrow> (int \<rightharpoonup> string)
     \<Rightarrow> (int \<times> string list) list \<Rightarrow> world \<Rightarrow> outcome" where
  "process_images set_order output_dir img_dir split_name imap [] w = Done w"
| "process_images set_order output_dir img_dir split_name imap (item # items) w =
     and_then (process_image set_order output_dir img_dir split_name imap item w)
       (process_images set_order output_dir img_dir split_name imap items)"

text \<open>
  Lines 35 to 73. \<open>json_load\<close> is the parser. The annotation file that it loads is a value
  of the type \<open>coco\<close>: it has the three lists, and their items have the keys that the
  script reads, so no subscript of lines 41 to 54 fails but \<open>category_map[category_id]\<close>.
  \<open>json_load\<close> gives \<open>None\<close> where \<open>json.load\<close> raises, whatever the exception, which
  the model calls \<open>JSONDecodeError\<close>; a text that \<open>json.load\<close> accepts and that is no such
  annotation file is not an input of the model. \<open>output_dir\<close> is the variable of the
  enclosing function.
\<close>

definition process_split ::
  "(string list \<Rightarrow> string list) \<Rightarrow> (string \<Rightarrow> coco option) \<Rightarrow> string
     \<Rightarrow> string \<Rightarrow> string \<Rightarrow> string \<Rightarrow> world \<Rightarrow> outcome" where
  "process_split set_order json_load output_dir json_path img_dir split_name w =
     (case open_read (files w) json_path of
        Inl e \<Rightarrow> Raised e w
      | Inr text \<Rightarrow>
        (case json_load text of
           None \<Rightarrow> Raised JSONDecodeError w
         | Some data \<Rightarrow>
           (case image_categories (category_map (categories data)) (annotations data) [] of
              Inl e \<Rightarrow> Raised e w
            | Inr ic \<Rightarrow>
                process_images set_order output_dir img_dir split_name
                  (image_map (images data)) ic w)))"

subsection \<open>convert_cardd_to_directory\<close>

text \<open>Lines 32 and 33.\<close>

fun make_split_dirs :: "string \<Rightarrow> string list \<Rightarrow> world \<Rightarrow> outcome" where
  "make_split_dirs output_dir [] w = Done w"
| "make_split_dirs output_dir (split # splits) w =
     (case os_makedirs (files w) (os_path_join output_dir [split]) of
        Inl (e, f1) \<Rightarrow> Raised e (w\<lparr>files := f1\<rparr>)
      | Inr f1 \<Rightarrow> make_split_dirs output_dir splits (w\<lparr>files := f1\<rparr>))"

definition newline :: char where
  "newline = CHR 0x0A"

definition convert_cardd_to_directory ::
  "(string list \<Rightarrow> string list) \<Rightarrow> (string \<Rightarrow> coco option) \<Rightarrow> string \<Rightarrow> string
     \<Rightarrow> world \<Rightarrow> outcome" where
  "convert_cardd_to_directory set_order json_load coco_dir output_dir w =
     (let train_json = os_path_join coco_dir [''annotations'', ''instances_train2017.json''];
          val_json = os_path_join coco_dir [''annotations'', ''instances_val2017.json''];
          test_json = os_path_join coco_dir [''annotations'', ''instances_test2017.json''];
          train_img_dir = os_path_join coco_dir [''train2017''];
          val_img_dir = os_path_join coco_dir [''val2017''];
          test_img_dir = os_path_join coco_dir [''test2017'']
      in and_then (make_split_dirs output_dir [''train'', ''val'', ''test''] w) (\<lambda>w.
         and_then (process_split set_order json_load output_dir train_json train_img_dir ''train''
                     (print ''Processing training set...'' w)) (\<lambda>w.
         and_then (process_split set_order json_load output_dir val_json val_img_dir ''val''
                     (print (newline # ''Processing validation set...'') w)) (\<lambda>w.
         and_then (process_split set_order json_load output_dir test_json test_img_dir ''test''
                     (print (newline # ''Processing test set...'') w)) (\<lambda>w.
         Done (print (newline # ''Conversion complete! Dataset saved to: '' @ output_dir) w))))))"

subsection \<open>Vocabulary of the properties\<close>

text \<open>The copies made by a call: the entries that its outcome added to the history.\<close>

definition copies_since :: "world \<Rightarrow> outcome \<Rightarrow> (int \<times> string \<times> string) list" where
  "copies_since w out = drop (length (copied w)) (copied (world_of out))"

text \<open>The entry that the loop body writes into the history for one item of
  \<open>image_categories\<close>.\<close>

definition copy_of_item ::
  "(string list \<Rightarrow> string list) \<Rightarrow> string \<Rightarrow> string \<Rightarrow> string \<Rightarrow> (int \<rightharpoonup> string)
     \<Rightarrow> int \<times> string list \<Rightarrow> int \<times> string \<times> string \<Rightarrow> bool" where
  "copy_of_item so od idir sp imap item e =
     (\<exists>fn c cs. imap (fst item) = Some fn \<and> so (snd item) = c # cs
        \<and> e = (fst item, os_path_join idir [fn], os_path_join (os_path_join od [sp, c]) [fn]))"

text \<open>\<open>adds_dirs f f'\<close>: \<open>f'\<close> is \<open>f\<close> with directories made where nothing was.
  \<open>grows f f'\<close>: every node of \<open>f\<close> is still there in \<open>f'\<close>, as a file or as a directory
  as before.\<close>

definition adds_dirs :: "filesystem \<Rightarrow> filesystem \<Rightarrow> bool" where
  "adds_dirs f f' = (\<forall>k. f' k = f k \<or> (lookup f k = None \<and> f' k = Some Dir))"

definition same_kind :: "node option \<Rightarrow> node option \<Rightarrow> bool" where
  "same_kind a b =
     (case a of
        None \<Rightarrow> True
      | Some Dir \<Rightarrow> b = Some Dir
      | Some (File c st) \<Rightarrow> (\<exists>c' st'. b = Some (File c' st')))"

definition grows :: "filesystem \<Rightarrow> filesystem \<Rightarrow> bool" where
  "grows f f' = (\<forall>k. same_kind (lookup f k) (lookup f' k))"

text \<open>A plain name is one component of a path: not empty, without separator, and neither
  \<open>.\<close> nor \<open>..\<close>.\<close>

definition plain_name :: "string \<Rightarrow> bool" where
  "plain_name b = (b \<noteq> [] \<and> sep \<notin> set b \<and> b \<noteq> ''.'' \<and> b \<noteq> ''..'')"

text \<open>\<open>plain_names\<close>: the category names and the file names of an annotation file are plain
  names.\<close>

definition plain_names :: "coco \<Rightarrow> bool" where
  "plain_names data =
     ((\<forall>cat \<in> set (categories data). plain_name (cat_name cat))
      \<and> (\<forall>img \<in> set (images data). plain_name (file_name img)))"

text \<open>The components of a directory path that precede a name joined to it: those of the
  path, without the empty one that a trailing separator makes.\<close>

definition dir_components :: "string \<Rightarrow> string list" where
  "dir_components dir = (if last dir = sep then butlast (split_sep dir) else split_sep dir)"

text \<open>\<open>os.path.isfile\<close>, and the path that \<open>shutil.copy2(src, dst)\<close> writes: \<open>dst\<close>, or the
  base name of the source inside \<open>dst\<close> when that is a directory.\<close>

definition os_path_isfile :: "filesystem \<Rightarrow> string \<Rightarrow> bool" where
  "os_path_isfile f p = (case os_stat f p of Inr (File b st) \<Rightarrow> True | _ \<Rightarrow> False)"

definition copy_target :: "filesystem \<Rightarrow> string \<Rightarrow> string \<Rightarrow> string" where
  "copy_target f src dst =
     (if os_path_isdir f dst then os_path_join dst [os_path_basename src] else dst)"

text \<open>
  A simple path is made of names only: after the separator of an absolute path, or the
  leading \<open>..\<close> components of a relative one, every component is a plain name. Its
  components are those of \<open>split_sep\<close> without the empty one before the separator of an
  absolute path, and \<open>path_key\<close> is the key of the node it leads to. \<open>join_sep\<close> puts the
  components of a path together again.
\<close>

definition components :: "string \<Rightarrow> string list" where
  "components p = split_sep (if take 1 p = [sep] then drop 1 p else p)"

definition simple_path :: "string \<Rightarrow> bool" where
  "simple_path p =
     (let names = dropWhile (\<lambda>c. c = ''..'') (components p)
      in names \<noteq> [] \<and> list_all plain_name names
         \<and> (take 1 p \<noteq> [sep] \<or> names = components p))"

definition path_key :: "string \<Rightarrow> string list" where
  "path_key p = start_key p @ components p"

fun join_sep :: "string list \<Rightarrow> string" where
  "join_sep [] = []"
| "join_sep [c] = c"
| "join_sep (c # d # cs) = c @ sep # join_sep (d # cs)"

text \<open>\<open>confined d f f'\<close>: every key at which \<open>f'\<close> differs from \<open>f\<close> is \<open>d\<close> or below it, or
  it is a directory on the way to \<open>d\<close> that was missing and has been made.
  \<open>dirs_toward d f f'\<close>: \<open>f'\<close> is \<open>f\<close> with missing directories made on the way to \<open>d\<close>.\<close>

definition confined :: "string list \<Rightarrow> filesystem \<Rightarrow> filesystem \<Rightarrow> bool" where
  "confined d f f' =
     (\<forall>k. f' k = f k \<or> prefix d k \<or> (prefix k d \<and> f k = None \<and> f' k = Some Dir))"

definition dirs_toward :: "string list \<Rightarrow> filesystem \<Rightarrow> filesystem \<Rightarrow> bool" where
  "dirs_toward d f f' = (\<forall>k. f' k = f k \<or> (prefix k d \<and> f k = None \<and> f' k = Some Dir))"

text \<open>\<open>reads_plain_names\<close>: the annotation file stored under a path, if there is one and
  the parser accepts it, has plain names.\<close>

definition reads_plain_names :: "(string \<Rightarrow> coco option) \<Rightarrow> filesystem \<Rightarrow> string \<Rightarrow> bool" where
  "reads_plain_names json_load f json_path =
     (\<forall>text st data. f (path_key json_path) = Some (File text st) \<longrightarrow> json_load text = Some data
        \<longrightarrow> plain_names data)"

subsection \<open>Example inputs\<close>

text \<open>A data set directory \<open>coco\<close> with one annotation file and one image.\<close>

definition example_files :: filesystem where
  "example_files = [[''coco''] \<mapsto> Dir, [''coco'', ''ann.json''] \<mapsto> File ''J'' 0,
     [''coco'', ''train2017''] \<mapsto> Dir, [''coco'', ''train2017'', ''a.jpg''] \<mapsto> File ''JPEG'' 7]"

definition example_world :: world where
  "example_world = \<lparr>files = example_files, stdout = [], copied = []\<rparr>"


definition data_unknown_category :: coco where
  "data_unknown_category = \<lparr>categories = [\<lparr>cat_id = 1, cat_name = ''dent''\<rparr>],
     images = [\<lparr>img_id = 10, file_name = ''a.jpg''\<rparr>],
     annotations = [\<lparr>image_id = 10, category_id = 1\<rparr>, \<lparr>image_id = 10, category_id = 2\<rparr>]\<rparr>"

definition data_unannotated :: coco where
  "data_unannotated = \<lparr>categories = [\<lparr>cat_id = 1, cat_name = ''dent''\<rparr>],
     images = [\<lparr>img_id = 10, file_name = ''a.jpg''\<rparr>, \<lparr>img_id = 11, file_name = ''b.jpg''\<rparr>],
     annotations = [\<lparr>image_id = 10, category_id = 1\<rparr>]\<rparr>"

definition data_missing_image :: coco where
  "data_missing_image = \<lparr>categories = [\<lparr>cat_id = 1, cat_name = ''dent''\<rparr>],
     images = [\<lparr>img_id = 10, file_name = ''a.jpg''\<rparr>],
     annotations = [\<lparr>image_id = 10, category_id = 1\<rparr>, \<lparr>image_id = 12, category_id = 1\<rparr>]\<rparr>"

definition data_absent :: coco where
  "data_absent = \<lparr>categories = [\<lparr>cat_id = 1, cat_name = ''dent''\<rparr>],
     images = [\<lparr>img_id = 11, file_name = ''b.jpg''\<rparr>],
     annotations = [\<lparr>image_id = 11, category_id = 1\<rparr>]\<rparr>"

definition data_two :: coco where
  "data_two = \<lparr>categories = [\<lparr>cat_id = 1, cat_name = ''dent''\<rparr>, \<lparr>cat_id = 2, cat_name = ''scratch''\<rparr>],
     images = [\<lparr>img_id = 10, file_name = ''a.jpg''\<rparr>],
     annotations = [\<lparr>image_id = 10, category_id = 1\<rparr>, \<lparr>image_id = 10, category_id = 2\<rparr>]\<rparr>"

text \<open>A data set directory \<open>data\<close> with the three annotation files, of which the one of
  the training split has an image with two categories, and the worlds of two runs of the
  converter.\<close>

definition data_none :: coco where
  "data_none = \<lparr>categories = [\<lparr>cat_id = 1, cat_name = ''dent''\<rparr>, \<lparr>cat_id = 2, cat_name = ''scratch''\<rparr>],
     images = [], annotations = []\<rparr>"

definition conv_files :: filesystem where
  "conv_files = [[''data''] \<mapsto> Dir, [''data'', ''annotations''] \<mapsto> Dir,
     [''data'', ''annotations'', ''instances_train2017.json''] \<mapsto> File ''T'' 0,
     [''data'', ''annotations'', ''instances_val2017.json''] \<mapsto> File ''V'' 0,
     [''data'', ''annotations'', ''instances_test2017.json''] \<mapsto> File ''E'' 0,
     [''data'', ''train2017''] \<mapsto> Dir, [''data'', ''val2017''] \<mapsto> Dir,
     [''data'', ''test2017''] \<mapsto> Dir,
     [''data'', ''train2017'', ''a.jpg''] \<mapsto> File ''JPEG'' 7]"

definition conv_world :: world where
  "conv_world = \<lparr>files = conv_files, stdout = [], copied = []\<rparr>"

definition conv_load :: "string \<Rightarrow> coco option" where
  "conv_load t = (if t = ''T'' then Some data_two
                  else if t = ''V'' \<or> t = ''E'' then Some data_none else None)"

definition first_run :: world where
  "first_run = \<lparr>files = conv_files([''out''] \<mapsto> Dir, [''out'', ''train''] \<mapsto> Dir,
        [''out'', ''val''] \<mapsto> Dir, [''out'', ''test''] \<mapsto> Dir,
        [''out'', ''train'', ''dent''] \<mapsto> Dir,
        [''out'', ''train'', ''dent'', ''a.jpg''] \<mapsto> File ''JPEG'' 7),
      stdout = [''Processing training set...'', ''Copied a.jpg to train/dent/'',
        newline # ''Processing validation set...'', newline # ''Processing test set...'',
        newline # ''Conversion complete! Dataset saved to: out''],
      copied = [(10, ''data/train2017/a.jpg'', ''out/train/dent/a.jpg'')]\<rparr>"

text \<open>An annotation file whose category name is an absolute path.\<close>

definition data_absolute :: coco where
  "data_absolute = \<lparr>categories = [\<lparr>cat_id = 1, cat_name = ''/tmp/x''\<rparr>],
     images = [\<lparr>img_id = 10, file_name = ''a.jpg''\<rparr>],
     annotations = [\<lparr>image_id = 10, category_id = 1\<rparr>]\<rparr>"

definition abs_load :: "string \<Rightarrow> coco option" where
  "abs_load t = (if t = ''T'' then Some data_absolute
                 else if t = ''V'' \<or> t = ''E'' then Some data_none else None)"


text \<open>The world of the first example when the regular file \<open>out/train/dent\<close> is in the
  way of the category directory.\<close>

definition blocked_files :: filesystem where
  "blocked_files = example_files([''out''] \<mapsto> Dir, [''out'', ''train''] \<mapsto> Dir,
     [''out'', ''train'', ''dent''] \<mapsto> File ''x'' 0)"

definition blocked_world :: world where
  "blocked_world = \<lparr>files = blocked_files, stdout = [], copied = []\<rparr>"




section \<open>Lemmas\<close>

subsection \<open>The dictionaries\<close>

lemma category_map_snoc:
  "category_map (cats @ [cat]) = (category_map cats)(cat_id cat \<mapsto> cat_name cat)"
  by (simp add: category_map_def)

lemma category_map_None: "category_map cats k = None \<longleftrightarrow> k \<notin> cat_id ` set cats"
proof (induction cats rule: rev_induct)
  case Nil
  then show ?case by (simp add: category_map_def)
next
  case (snoc cat cats)
  then show ?case by (auto simp: category_map_snoc)
qed

lemma category_map_Some:
  "category_map cats k = Some n \<Longrightarrow> \<exists>cat \<in> set cats. cat_id cat = k \<and> cat_name cat = n"
proof (induction cats rule: rev_induct)
  case Nil
  then show ?case by (simp add: category_map_def)
next
  case (snoc cat cats)
  then show ?case by (auto simp: category_map_snoc split: if_splits)
qed

lemma image_map_snoc:
  "image_map (imgs @ [img]) = (image_map imgs)(img_id img \<mapsto> file_name img)"
  by (simp add: image_map_def)

lemma image_map_None: "image_map imgs k = None \<longleftrightarrow> k \<notin> img_id ` set imgs"
proof (induction imgs rule: rev_induct)
  case Nil
  then show ?case by (simp add: image_map_def)
next
  case (snoc img imgs)
  then show ?case by (auto simp: image_map_snoc)
qed

lemma image_map_Some:
  "image_map imgs k = Some n \<Longrightarrow> \<exists>img \<in> set imgs. img_id img = k \<and> file_name img = n"
proof (induction imgs rule: rev_induct)
  case Nil
  then show ?case by (simp add: image_map_def)
next
  case (snoc img imgs)
  then show ?case by (auto simp: image_map_snoc split: if_splits)
qed

lemma add_category_keys: "fst ` set (add_category ic i x) = insert i (fst ` set ic)"
  by (induction ic i x rule: add_category.induct) auto

lemma add_category_distinct: "distinct (map fst ic) \<Longrightarrow> distinct (map fst (add_category ic i x))"
proof (induction ic i x rule: add_category.induct)
  case (1 i x)
  then show ?case by simp
next
  case (2 j s rest i x)
  have "fst ` set (add_category rest i x) = insert i (fst ` set rest)"
    by (rule add_category_keys)
  with 2 show ?case by auto
qed

lemma image_categories_raises:
  "ann \<in> set anns \<Longrightarrow> cm (category_id ann) = None \<Longrightarrow>
     \<exists>a \<in> set anns. cm (category_id a) = None \<and> image_categories cm anns ic = Inl (KeyError (category_id a))"
  by (induction anns arbitrary: ic) (auto split: option.splits)

lemma image_categories_keys:
  "image_categories cm anns ic = Inr ic' \<Longrightarrow> fst ` set ic' = fst ` set ic \<union> image_id ` set anns"
proof (induction anns arbitrary: ic)
  case Nil
  then show ?case by simp
next
  case (Cons a anns)
  then show ?case
    by (auto split: option.splits simp: add_category_keys)
qed

lemma image_categories_distinct:
  "image_categories cm anns ic = Inr ic' \<Longrightarrow> distinct (map fst ic) \<Longrightarrow> distinct (map fst ic')"
  by (induction anns arbitrary: ic) (auto split: option.splits simp: add_category_distinct)

lemma set_set_add: "set (set_add s x) = insert x (set s)"
  by (auto simp: set_add_def)

lemma map_of_add_category:
  "map_of (add_category ic i x) =
     (map_of ic)(i \<mapsto> set_add (case map_of ic i of None \<Rightarrow> [] | Some s \<Rightarrow> s) x)"
  by (induction ic i x rule: add_category.induct) (auto simp: fun_eq_iff)

lemma image_categories_names:
  "image_categories cm anns ic = Inr ic' \<Longrightarrow> map_of ic' i = Some s \<Longrightarrow>
     set s = (case map_of ic i of None \<Rightarrow> {} | Some s0 \<Rightarrow> set s0)
             \<union> {n. \<exists>a \<in> set anns. image_id a = i \<and> cm (category_id a) = Some n}"
proof (induction anns arbitrary: ic)
  case Nil
  then show ?case by simp
next
  case (Cons a anns)
  from Cons.prems(1) obtain n where n: "cm (category_id a) = Some n"
    and rest: "image_categories cm anns (add_category ic (image_id a) n) = Inr ic'"
    by (auto split: option.splits)
  from Cons.IH [OF rest Cons.prems(2)] n show ?case
    by (auto simp: map_of_add_category set_set_add split: option.splits if_splits)
qed

subsection \<open>The file system only grows\<close>

lemma adds_dirs_refl: "adds_dirs f f"
  by (simp add: adds_dirs_def)

lemma adds_dirs_trans: "adds_dirs f g \<Longrightarrow> adds_dirs g h \<Longrightarrow> adds_dirs f h"
  unfolding adds_dirs_def lookup_def
  by (metis option.distinct(1))

lemma adds_dirs_update: "lookup f k = None \<Longrightarrow> adds_dirs f (f(k \<mapsto> Dir))"
  by (simp add: adds_dirs_def)

lemma os_mkdir_effect:
  "os_mkdir f p = Inr f' \<Longrightarrow>
     \<exists>dir. walk f (start_key p) (butlast (named_components p) @ [[]]) = Inr dir
        \<and> named_components p \<noteq> [] \<and> p \<noteq> []
        \<and> last (named_components p) \<noteq> ''.'' \<and> last (named_components p) \<noteq> ''..''
        \<and> lookup f (dir @ [last (named_components p)]) = None
        \<and> f' = f(dir @ [last (named_components p)] \<mapsto> Dir)"
  unfolding os_mkdir_def Let_def
  by (auto split: if_splits sum.splits option.splits)

lemma os_mkdir_adds_dirs: "os_mkdir f p = Inr f' \<Longrightarrow> adds_dirs f f'"
  by (auto dest!: os_mkdir_effect intro: adds_dirs_update)

lemma mkdir_exist_ok_adds_dirs_Inr: "mkdir_exist_ok f p = Inr f' \<Longrightarrow> adds_dirs f f'"
  unfolding mkdir_exist_ok_def
  by (auto split: sum.splits if_splits intro: adds_dirs_refl os_mkdir_adds_dirs)

lemma mkdir_exist_ok_Inl: "mkdir_exist_ok f p = Inl (e, f') \<Longrightarrow> f' = f"
  unfolding mkdir_exist_ok_def
  by (auto split: sum.splits if_splits)

lemma os_makedirs_adds_dirs:
  "(os_makedirs f name = Inr f' \<longrightarrow> adds_dirs f f')
   \<and> (os_makedirs f name = Inl (e, f') \<longrightarrow> adds_dirs f f')"
proof (induction f name arbitrary: f' e rule: os_makedirs.induct)
  case (1 f name)
  let ?head = "fst (makedirs_parts name)"
  let ?tail = "snd (makedirs_parts name)"
  show ?case
  proof (cases "?head \<noteq> [] \<and> ?tail \<noteq> [] \<and> \<not> os_path_exists f ?head")
    case False
    then have eq: "os_makedirs f name = mkdir_exist_ok f name"
      by (subst os_makedirs.simps) (auto simp: Let_def)
    show ?thesis
      unfolding eq
      by (auto dest: mkdir_exist_ok_adds_dirs_Inr mkdir_exist_ok_Inl simp: adds_dirs_refl)
  next
    case True
    have ih: "(os_makedirs f ?head = Inr g \<longrightarrow> adds_dirs f g)
            \<and> (os_makedirs f ?head = Inl (e', g) \<longrightarrow> adds_dirs f g)" for g e'
      using "1.IH" [OF refl refl True] by blast
    have step: "adds_dirs g h" if "mkdir_exist_ok g name = Inr h \<or> mkdir_exist_ok g name = Inl (e', h)" for g h e'
      using that by (auto dest: mkdir_exist_ok_adds_dirs_Inr mkdir_exist_ok_Inl simp: adds_dirs_refl)
    show ?thesis
    proof (cases "os_makedirs f ?head")
      case (Inl a)
      obtain e1 f1 where a: "a = (e1, f1)" by (cases a)
      with Inl ih have f1: "adds_dirs f f1" by blast
      have eq: "os_makedirs f name =
           (if e1 = FileExistsError
            then (if ?tail = ''.'' then Inr f1 else mkdir_exist_ok f1 name)
            else Inl (e1, f1))"
        using True Inl a by (subst os_makedirs.simps) (simp add: Let_def)
      show ?thesis
        unfolding eq using f1 step [of f1]
        by (auto split: if_splits intro: adds_dirs_trans)
    next
      case (Inr f1)
      with ih have f1: "adds_dirs f f1" by blast
      have eq: "os_makedirs f name = (if ?tail = ''.'' then Inr f1 else mkdir_exist_ok f1 name)"
        using True Inr by (subst os_makedirs.simps) (simp add: Let_def)
      show ?thesis
        unfolding eq using f1 step [of f1]
        by (auto split: if_splits intro: adds_dirs_trans)
    qed
  qed
qed

lemma os_makedirs_adds_dirs_Inr: "os_makedirs f name = Inr f' \<Longrightarrow> adds_dirs f f'"
  using os_makedirs_adds_dirs by blast

lemma os_makedirs_adds_dirs_Inl: "os_makedirs f name = Inl (e, f') \<Longrightarrow> adds_dirs f f'"
  using os_makedirs_adds_dirs by blast

lemma same_kind_simps:
  "same_kind None b = True"
  "same_kind (Some Dir) b = (b = Some Dir)"
  "same_kind (Some (File c st)) b = (\<exists>c' st'. b = Some (File c' st'))"
  by (simp_all add: same_kind_def)

lemma same_kind_refl: "same_kind a a"
  by (cases a rule: option.exhaust; simp add: same_kind_def split: node.splits)

lemma same_kind_trans: "same_kind a b \<Longrightarrow> same_kind b c \<Longrightarrow> same_kind a c"
  by (auto simp: same_kind_def split: option.splits node.splits)

lemma grows_refl: "grows f f"
  by (simp add: grows_def same_kind_refl)

lemma grows_trans: "grows f g \<Longrightarrow> grows g h \<Longrightarrow> grows f h"
  unfolding grows_def by (blast intro: same_kind_trans)

lemma adds_dirs_grows: "adds_dirs f f' \<Longrightarrow> grows f f'"
proof -
  assume a: "adds_dirs f f'"
  have "same_kind (lookup f k) (lookup f' k)" for k
  proof (cases "f' k = f k")
    case True
    then show ?thesis by (simp add: lookup_def same_kind_refl)
  next
    case False
    with a have "lookup f k = None" by (auto simp: adds_dirs_def)
    then show ?thesis by (simp add: same_kind_simps)
  qed
  then show ?thesis by (simp add: grows_def)
qed

lemma grows_Dir: "grows f f' \<Longrightarrow> lookup f k = Some Dir \<Longrightarrow> lookup f' k = Some Dir"
  by (auto simp: grows_def same_kind_def split: option.splits node.splits)

lemma walk_grows: "grows f f' \<Longrightarrow> walk f cur cs = Inr k \<Longrightarrow> walk f' cur cs = Inr k"
proof (induction cs arbitrary: cur)
  case Nil
  then show ?case by simp
next
  case (Cons c cs)
  from Cons.prems(2) have d: "lookup f cur = Some Dir"
    by (auto split: option.splits node.splits)
  with Cons.prems(1) have d': "lookup f' cur = Some Dir" by (rule grows_Dir)
  from Cons.prems(2) d have "walk f (if c = [] \<or> c = ''.'' then cur
                  else if c = ''..'' then parent_key cur else cur @ [c]) cs = Inr k"
    by simp
  from Cons.IH [OF Cons.prems(1) this] d' show ?case by simp
qed

lemma resolve_grows: "grows f f' \<Longrightarrow> resolve f p = Inr k \<Longrightarrow> resolve f' p = Inr k"
  by (auto simp: resolve_def split: if_splits dest: walk_grows)

lemma os_stat_grows:
  assumes "grows f f'" and "os_stat f p = Inr n"
  shows "\<exists>n'. os_stat f' p = Inr n' \<and> same_kind (Some n) (Some n')"
proof -
  from assms(2) obtain k where k: "resolve f p = Inr k" "lookup f k = Some n"
    by (auto simp: os_stat_def split: sum.splits option.splits)
  from assms(1) k(1) have k': "resolve f' p = Inr k" by (rule resolve_grows)
  from assms(1) have "same_kind (lookup f k) (lookup f' k)" by (simp add: grows_def)
  with k(2) obtain n' where "lookup f' k = Some n'" "same_kind (Some n) (Some n')"
    by (cases n) (auto simp: same_kind_def)
  with k' show ?thesis by (simp add: os_stat_def)
qed

lemma grows_exists: "grows f f' \<Longrightarrow> os_path_exists f p \<Longrightarrow> os_path_exists f' p"
  using os_stat_grows [of f f' p]
  by (auto simp: os_path_exists_def split: sum.splits)

lemma grows_isdir: "grows f f' \<Longrightarrow> os_path_isdir f p \<Longrightarrow> os_path_isdir f' p"
  using os_stat_grows [of f f' p Dir]
  by (auto simp: os_path_isdir_def same_kind_def)

lemma open_write_effect:
  "open_write f p b st = Inr f' \<Longrightarrow>
     \<exists>dir. walk f (start_key p) (butlast (named_components p) @ [[]]) = Inr dir
        \<and> p \<noteq> [] \<and> named_components p = split_sep p
        \<and> last (split_sep p) \<noteq> ''.'' \<and> last (split_sep p) \<noteq> ''..''
        \<and> lookup f (dir @ [last (split_sep p)]) \<noteq> Some Dir
        \<and> f' = f(dir @ [last (split_sep p)] \<mapsto> File b st)"
  unfolding open_write_def Let_def
  by (auto split: if_splits sum.splits option.splits node.splits)

lemma shutil_copy2_effect:
  "shutil_copy2 f src dst = Inr f' \<Longrightarrow>
     \<exists>k b st. f' = f(k \<mapsto> File b st) \<and> os_stat f src = Inr (File b st)
        \<and> lookup f k \<noteq> Some Dir"
  unfolding shutil_copy2_def Let_def
  by (auto split: if_splits sum.splits node.splits dest!: open_write_effect)

lemma shutil_copy2_grows: "shutil_copy2 f src dst = Inr f' \<Longrightarrow> grows f f'"
proof -
  assume "shutil_copy2 f src dst = Inr f'"
  then obtain k b st where f': "f' = f(k \<mapsto> File b st)" and k: "lookup f k \<noteq> Some Dir"
    using shutil_copy2_effect by blast
  show ?thesis
    unfolding grows_def same_kind_def f' using k
    by (auto simp: lookup_def split: option.splits node.splits if_splits)
qed

subsection \<open>The loop body and the loop\<close>

lemma process_image_grows:
  "grows (files w) (files (world_of (process_image so od idir sp imap item w)))"
  unfolding process_image_def Let_def print_def
  by (auto split: option.splits list.splits sum.splits prod.splits
      intro: grows_refl grows_trans adds_dirs_grows
      dest!: os_makedirs_adds_dirs_Inr os_makedirs_adds_dirs_Inl shutil_copy2_grows)

lemma process_image_copied:
  "\<exists>new. copied (world_of (process_image so od idir sp imap item w)) = copied w @ new
     \<and> (new = [] \<or> (\<exists>fn c cs. imap (fst item) = Some fn \<and> so (snd item) = c # cs
           \<and> new = [(fst item, os_path_join idir [fn], os_path_join (os_path_join od [sp, c]) [fn])]))"
  unfolding process_image_def Let_def print_def
  by (auto split: option.splits list.splits sum.splits prod.splits)

lemma process_images_grows:
  "grows (files w) (files (world_of (process_images so od idir sp imap items w)))"
proof (induction items arbitrary: w)
  case Nil
  then show ?case by (simp add: grows_refl)
next
  case (Cons item items)
  show ?case
  proof (cases "process_image so od idir sp imap item w")
    case (Done w1)
    have "grows (files w) (files w1)"
      using process_image_grows [of w so od idir sp imap item] Done by simp
    moreover have "grows (files w1) (files (world_of (process_images so od idir sp imap items w1)))"
      by (rule Cons.IH)
    ultimately show ?thesis using Done by (auto intro: grows_trans)
  next
    case (Raised e w1)
    then show ?thesis
      using process_image_grows [of w so od idir sp imap item] by simp
  qed
qed

lemma process_image_copy_of_item:
  "\<exists>new. copied (world_of (process_image so od idir sp imap item w)) = copied w @ new
     \<and> (new = [] \<or> (\<exists>e. new = [e] \<and> copy_of_item so od idir sp imap item e))"
  using process_image_copied [of so od idir sp imap item w]
  unfolding copy_of_item_def by blast

lemma copy_of_item_fst: "copy_of_item so od idir sp imap item e \<Longrightarrow> fst e = fst item"
  by (auto simp: copy_of_item_def)

lemma process_images_copied:
  "\<exists>new. copied (world_of (process_images so od idir sp imap items w)) = copied w @ new
     \<and> (\<forall>e \<in> set new. \<exists>item \<in> set items. copy_of_item so od idir sp imap item e)
     \<and> (\<forall>i. length (filter (\<lambda>e. fst e = i) new) \<le> length (filter (\<lambda>it. fst it = i) items))"
proof (induction items arbitrary: w)
  case Nil
  then show ?case by simp
next
  case (Cons item items)
  obtain new1 where new1:
    "copied (world_of (process_image so od idir sp imap item w)) = copied w @ new1"
    "new1 = [] \<or> (\<exists>e. new1 = [e] \<and> copy_of_item so od idir sp imap item e)"
    using process_image_copy_of_item by blast
  have count1: "length (filter (\<lambda>e. fst e = i) new1) \<le> (if fst item = i then 1 else 0)" for i
    using new1(2) by (auto dest: copy_of_item_fst)
  show ?case
  proof (cases "process_image so od idir sp imap item w")
    case (Done w1)
    obtain new2 where new2:
      "copied (world_of (process_images so od idir sp imap items w1)) = copied w1 @ new2"
      "\<forall>e \<in> set new2. \<exists>item \<in> set items. copy_of_item so od idir sp imap item e"
      "\<forall>i. length (filter (\<lambda>e. fst e = i) new2) \<le> length (filter (\<lambda>it. fst it = i) items)"
      using Cons.IH by blast
    have "copied (world_of (process_images so od idir sp imap (item # items) w))
            = copied w @ (new1 @ new2)"
      using Done new1(1) new2(1) by simp
    moreover have "\<forall>e \<in> set (new1 @ new2). \<exists>it \<in> set (item # items). copy_of_item so od idir sp imap it e"
      using new1(2) new2(2) by auto
    moreover have "\<forall>i. length (filter (\<lambda>e. fst e = i) (new1 @ new2))
                      \<le> length (filter (\<lambda>it. fst it = i) (item # items))"
    proof
      fix i
      from count1 [of i] new2(3) have "length (filter (\<lambda>e. fst e = i) new1) + length (filter (\<lambda>e. fst e = i) new2)
         \<le> (if fst item = i then 1 else 0) + length (filter (\<lambda>it. fst it = i) items)"
        by (meson add_mono)
      then show "length (filter (\<lambda>e. fst e = i) (new1 @ new2))
                      \<le> length (filter (\<lambda>it. fst it = i) (item # items))"
        by (simp split: if_splits)
    qed
    ultimately show ?thesis by blast
  next
    case (Raised e w1)
    have "copied (world_of (process_images so od idir sp imap (item # items) w)) = copied w @ new1"
      using Raised new1(1) by simp
    moreover have "\<forall>e \<in> set new1. \<exists>it \<in> set (item # items). copy_of_item so od idir sp imap it e"
      using new1(2) by auto
    moreover have "\<forall>i. length (filter (\<lambda>e. fst e = i) new1)
                      \<le> length (filter (\<lambda>it. fst it = i) (item # items))"
    proof
      fix i
      from count1 [of i]
      show "length (filter (\<lambda>e. fst e = i) new1) \<le> length (filter (\<lambda>it. fst it = i) (item # items))"
        by (simp split: if_splits)
    qed
    ultimately show ?thesis by blast
  qed
qed


lemma set_add_nonempty: "set_add s x \<noteq> []"
  by (auto simp: set_add_def)

lemma add_category_nonempty:
  "\<forall>it \<in> set ic. snd it \<noteq> [] \<Longrightarrow> \<forall>it \<in> set (add_category ic i x). snd it \<noteq> []"
  by (induction ic i x rule: add_category.induct) (auto simp: set_add_nonempty)

lemma image_categories_nonempty:
  "image_categories cm anns ic = Inr ic' \<Longrightarrow> \<forall>it \<in> set ic. snd it \<noteq> [] \<Longrightarrow> \<forall>it \<in> set ic'. snd it \<noteq> []"
proof (induction anns arbitrary: ic)
  case Nil
  then show ?case by simp
next
  case (Cons a anns)
  from Cons.prems(1) obtain n where
    rest: "image_categories cm anns (add_category ic (image_id a) n) = Inr ic'"
    by (auto split: option.splits)
  from Cons.IH [OF rest add_category_nonempty [OF Cons.prems(2)]] show ?case .
qed

lemma image_categories_Inl:
  "image_categories cm anns ic = Inl e \<Longrightarrow> \<exists>a \<in> set anns. cm (category_id a) = None \<and> e = KeyError (category_id a)"
  by (induction anns arbitrary: ic) (auto split: option.splits)

lemma process_images_missing_image:
  "item \<in> set items \<Longrightarrow> imap (fst item) = None \<Longrightarrow>
     \<exists>e w'. process_images so od idir sp imap items w = Raised e w'"
proof (induction items arbitrary: w)
  case Nil
  then show ?case by simp
next
  case (Cons it items)
  show ?case
  proof (cases "process_image so od idir sp imap it w")
    case (Done w1)
    with Cons.prems have "item \<in> set items"
      by (auto simp: process_image_def)
    from Cons.IH [OF this Cons.prems(2), of w1] Done show ?thesis by simp
  next
    case (Raised e1 w1)
    then show ?thesis by simp
  qed
qed

lemma copies_since_Raised_same [simp]: "copies_since w (Raised e w) = []"
  by (simp add: copies_since_def)

lemma copies_since_process_images:
  "e \<in> set (copies_since w (process_images so od idir sp imap items w)) \<Longrightarrow>
     \<exists>item \<in> set items. copy_of_item so od idir sp imap item e"
  using process_images_copied [of so od idir sp imap items w]
  by (auto simp: copies_since_def)

subsection \<open>Completed calls\<close>



lemma os_path_join_snoc: "os_path_join (os_path_join a p) q = os_path_join a (p @ q)"
  by (simp add: os_path_join_def)

lemma join2_literal:
  "a \<noteq> [] \<Longrightarrow> last a \<noteq> sep \<Longrightarrow> take 1 b \<noteq> [sep] \<Longrightarrow> join2 a b = a @ [sep] @ b"
  by (simp add: join2_def)

lemma set_iteration_hd: "set_iteration so \<Longrightarrow> so s = c # cs \<Longrightarrow> c \<in> set s \<and> c = hd (so s)"
  by (metis list.sel(1) list.set_intros(1) set_iteration_def)

lemma copies_since_Cons_Done:
  assumes "process_image so od idir sp imap item w = Done w1"
  shows "copies_since w (process_images so od idir sp imap (item # items) w)
           = copies_since w (Done w1) @ copies_since w1 (process_images so od idir sp imap items w1)"
proof -
  obtain new1 where new1: "copied w1 = copied w @ new1"
    using process_image_copy_of_item [of so od idir sp imap item w] assms by auto
  obtain new2 where new2:
    "copied (world_of (process_images so od idir sp imap items w1)) = copied w1 @ new2"
    using process_images_copied by blast
  show ?thesis using assms new1 new2 by (simp add: copies_since_def)
qed

lemma process_images_no_copy:
  "i \<notin> fst ` set items \<Longrightarrow>
     filter (\<lambda>e. fst e = i) (copies_since w (process_images so od idir sp imap items w)) = []"
proof -
  assume i: "i \<notin> fst ` set items"
  have "fst e \<noteq> i" if "e \<in> set (copies_since w (process_images so od idir sp imap items w))" for e
  proof -
    from copies_since_process_images [OF that]
    obtain item where "item \<in> set items" "copy_of_item so od idir sp imap item e" by blast
    then have "fst e \<in> fst ` set items" by (auto dest: copy_of_item_fst)
    with i show ?thesis by auto
  qed
  then show ?thesis by (auto simp: filter_empty_conv)
qed


text \<open>The equations that evaluate the model at a concrete input.\<close>

lemmas eval_simps = process_split_def open_read_def os_stat_def resolve_def start_key_def
  lookup_def implicit_dir_def parent_key_def os_path_join_def join2_def sep_def
  os_makedirs.simps makedirs_parts_def os_path_split_def mkdir_exist_ok_def os_mkdir_def
  named_components_def os_path_exists_def os_path_isdir_def shutil_copy2_def same_file_def
  open_write_def os_path_basename_def process_image_def print_def category_map_def
  image_map_def set_add_def Let_def
subsection \<open>Paths made of plain names\<close>

lemma split_sep_nonempty: "split_sep p \<noteq> []"
  by (induction p) (auto split: list.splits)

lemma split_sep_no_sep: "sep \<notin> set b \<Longrightarrow> split_sep b = [b]"
  by (induction b) (auto split: list.splits)

lemma split_sep_append: "split_sep (x @ sep # y) = split_sep x @ split_sep y"
  by (induction x) (auto split: list.splits simp: split_sep_nonempty)

lemma split_sep_snoc_sep: "split_sep (x @ [sep]) = split_sep x @ [[]]"
  using split_sep_append [of x "[]"] by simp

lemma plain_name_not_absolute: "plain_name b \<Longrightarrow> take 1 b \<noteq> [sep]"
  by (cases b) (auto simp: plain_name_def)

lemma join2_plain:
  "plain_name b \<Longrightarrow> join2 a b = (if a = [] \<or> last a = sep then a @ b else a @ sep # b)"
  using plain_name_not_absolute [of b] by (simp add: join2_def)

lemma join2_nonempty: "plain_name b \<Longrightarrow> join2 a b \<noteq> []"
  by (auto simp: join2_plain plain_name_def)

lemma basename_join2: "plain_name b \<Longrightarrow> os_path_basename (join2 a b) = b"
proof -
  assume b: "plain_name b"
  have all: "takeWhile (\<lambda>c. c \<noteq> sep) (rev b) = rev b"
    using b by (auto simp: takeWhile_eq_all_conv plain_name_def)
  have "os_path_basename (x @ b) = b" if "x = [] \<or> last x = sep" for x
  proof (cases "x = []")
    case True
    show ?thesis
      unfolding os_path_basename_def True append_Nil all by simp
  next
    case False
    with that obtain x' where "x = x' @ [sep]" by (metis append_butlast_last_id)
    then have r: "rev (x @ b) = rev b @ sep # rev x'" by simp
    have t: "takeWhile (\<lambda>c. c \<noteq> sep) (rev b @ sep # rev x') = rev b"
      using b by (auto simp: takeWhile_tail plain_name_def)
    show ?thesis
      unfolding os_path_basename_def r t by simp
  qed
  note base = this
  show ?thesis
  proof (cases "a = [] \<or> last a = sep")
    case True
    with b base [of a] show ?thesis by (simp add: join2_plain)
  next
    case False
    with b base [of "a @ [sep]"] show ?thesis by (simp add: join2_plain)
  qed
qed



lemma walk_append:
  "walk f cur (cs @ ds) = (case walk f cur cs of Inl e \<Rightarrow> Inl e | Inr k \<Rightarrow> walk f k ds)"
  by (induction cs arbitrary: cur) (auto split: option.splits node.splits)

lemma walk_empty_component:
  "walk f k [[]] = (case lookup f k of None \<Rightarrow> Inl FileNotFoundError
     | Some (File b st) \<Rightarrow> Inl NotADirectoryError | Some Dir \<Rightarrow> Inr k)"
  by (auto split: option.splits node.splits)

lemma walk_empties: "lookup f k = Some Dir \<Longrightarrow> walk f k (replicate m []) = Inr k"
  by (induction m) auto

lemma walk_plain:
  "plain_name c \<Longrightarrow> lookup f k = Some Dir \<Longrightarrow> walk f k [c] = Inr (k @ [c])"
  by (simp add: plain_name_def)

lemma start_key_append: "a \<noteq> [] \<Longrightarrow> start_key (a @ b) = start_key a"
  by (cases a) (simp_all add: start_key_def)

text \<open>The components of \<open>join2 dir fn\<close> are those of \<open>dir\<close>, without the empty one that a
  trailing separator makes, and then \<open>fn\<close>.\<close>

lemma split_sep_join2:
  assumes "plain_name fn" and "dir \<noteq> []"
  shows "split_sep (join2 dir fn) = dir_components dir @ [fn]"
    and "start_key (join2 dir fn) = start_key dir"
proof -
  have fn: "split_sep fn = [fn]"
    using assms(1) by (simp add: split_sep_no_sep plain_name_def)
  show "split_sep (join2 dir fn) = dir_components dir @ [fn]"
  proof (cases "last dir = sep")
    case True
    with assms(2) obtain d where d: "dir = d @ [sep]" by (metis append_butlast_last_id)
    then show ?thesis
      using assms True fn by (simp add: join2_plain dir_components_def split_sep_append split_sep_snoc_sep)
  next
    case False
    then show ?thesis
      using assms fn by (simp add: join2_plain dir_components_def split_sep_append)
  qed
  show "start_key (join2 dir fn) = start_key dir"
    using assms by (auto simp: join2_plain start_key_append)
qed

lemma walk_dir_components:
  assumes "dir \<noteq> []" and "resolve f dir = Inr k" and "lookup f k = Some Dir"
  shows "walk f (start_key dir) (dir_components dir) = Inr k"
proof (cases "last dir = sep")
  case True
  with assms(1) obtain d where d: "dir = d @ [sep]" by (metis append_butlast_last_id)
  then have s: "split_sep dir = dir_components dir @ [[]]"
    using True by (simp add: dir_components_def split_sep_snoc_sep)
  from assms(1,2) have "walk f (start_key dir) (dir_components dir @ [[]]) = Inr k"
    by (simp add: resolve_def s)
  then show ?thesis
    by (auto simp: walk_append split: sum.splits option.splits node.splits)
next
  case False
  with assms(1,2) show ?thesis by (simp add: resolve_def dir_components_def)
qed

lemma isdir_resolve:
  "os_path_isdir f p \<Longrightarrow> \<exists>k. resolve f p = Inr k \<and> lookup f k = Some Dir \<and> p \<noteq> []"
  by (auto simp: os_path_isdir_def os_stat_def resolve_def split: sum.splits option.splits if_splits)

lemma resolve_join2_dir:
  assumes "plain_name fn" and "resolve f dir = Inr k" and "lookup f k = Some Dir"
  shows "resolve f (join2 dir fn) = Inr (k @ [fn])"
proof -
  from assms(2) have ne: "dir \<noteq> []" by (auto simp: resolve_def split: if_splits)
  have "walk f (start_key dir) (dir_components dir @ [fn]) = Inr (k @ [fn])"
    using walk_dir_components [OF ne assms(2,3)] assms(1,3)
    by (simp add: walk_append walk_plain del: walk.simps)
  then show ?thesis
    using assms(1) ne by (simp add: resolve_def split_sep_join2 join2_nonempty)
qed


lemma named_components_join2:
  assumes "plain_name fn" and "dir \<noteq> []"
  shows "named_components (join2 dir fn) = dir_components dir @ [fn]"
  using assms by (simp add: named_components_def split_sep_join2 plain_name_def)

lemma open_write_join2_dir:
  assumes "plain_name fn" and "resolve f dir = Inr k" and "lookup f k = Some Dir"
  shows "open_write f (join2 dir fn) b st
           = (case lookup f (k @ [fn]) of
                Some Dir \<Rightarrow> Inl IsADirectoryError
              | _ \<Rightarrow> Inr (f(k @ [fn] \<mapsto> File b st)))"
proof -
  from assms(2) have ne: "dir \<noteq> []" by (auto simp: resolve_def split: if_splits)
  have nc: "named_components (join2 dir fn) = dir_components dir @ [fn]"
    using assms(1) ne by (rule named_components_join2)
  have ss: "split_sep (join2 dir fn) = dir_components dir @ [fn]"
    "start_key (join2 dir fn) = start_key dir"
    using assms(1) ne by (rule split_sep_join2)+
  have w: "walk f (start_key dir) (dir_components dir @ [[]]) = Inr k"
    using walk_dir_components [OF ne assms(2,3)] assms(3)
    by (simp add: walk_append)
  show ?thesis
    unfolding open_write_def nc ss
    using assms(1) w join2_nonempty [OF assms(1), of dir]
    by (auto simp: plain_name_def Let_def split: option.splits node.splits)
qed


subsection \<open>Directories made by \<open>os.makedirs\<close>\<close>

lemma split_sep_named_components:
  "\<exists>m. split_sep p = named_components p @ replicate m []"
proof -
  let ?P = "\<lambda>c::string. c = []"
  have "rev (split_sep p) = takeWhile ?P (rev (split_sep p)) @ dropWhile ?P (rev (split_sep p))"
    by simp
  then have "split_sep p = rev (dropWhile ?P (rev (split_sep p))) @ rev (takeWhile ?P (rev (split_sep p)))"
    by (metis rev_append rev_rev_ident)
  moreover have "rev (takeWhile ?P (rev (split_sep p)))
                   = replicate (length (takeWhile ?P (rev (split_sep p)))) []"
    by (rule replicate_eqI) (auto dest: set_takeWhileD)
  ultimately show ?thesis
    unfolding named_components_def by metis
qed

lemma last_named_components: "named_components p \<noteq> [] \<Longrightarrow> last (named_components p) \<noteq> []"
proof -
  assume ne: "named_components p \<noteq> []"
  let ?P = "\<lambda>c::string. c = []"
  from ne have d: "dropWhile ?P (rev (split_sep p)) \<noteq> []"
    by (simp add: named_components_def)
  then have "\<not> ?P (hd (dropWhile ?P (rev (split_sep p))))"
    by (rule hd_dropWhile)
  moreover have "last (named_components p) = hd (dropWhile ?P (rev (split_sep p)))"
    using d by (simp add: named_components_def last_rev)
  ultimately show ?thesis by simp
qed

lemma os_mkdir_isdir:
  assumes "os_mkdir f p = Inr f'"
  shows "os_path_isdir f' p"
proof -
  let ?nc = "named_components p"
  let ?name = "last ?nc"
  from os_mkdir_effect [OF assms] obtain dir where
    w: "walk f (start_key p) (butlast ?nc @ [[]]) = Inr dir"
    and ne: "?nc \<noteq> []" "p \<noteq> []"
    and name: "?name \<noteq> ''.''" "?name \<noteq> ''..''"
    and fresh: "lookup f (dir @ [?name]) = None"
    and f': "f' = f(dir @ [?name] \<mapsto> Dir)"
    by blast
  have name_ne: "?name \<noteq> []" using ne(1) by (rule last_named_components)
  have g: "grows f f'"
    using assms by (auto dest: os_mkdir_adds_dirs adds_dirs_grows)
  from w have w1: "walk f (start_key p) (butlast ?nc) = Inr dir" and d: "lookup f dir = Some Dir"
    by (auto simp: walk_append split: sum.splits option.splits node.splits)
  from g w1 have w1': "walk f' (start_key p) (butlast ?nc) = Inr dir" by (rule walk_grows)
  from g d have d': "lookup f' dir = Some Dir" by (rule grows_Dir)
  have new: "lookup f' (dir @ [?name]) = Some Dir"
    using fresh by (auto simp: f' lookup_def split: if_splits)
  obtain m where m: "split_sep p = ?nc @ replicate m []"
    using split_sep_named_components by blast
  have "?nc = butlast ?nc @ [?name]" using ne(1) by simp
  with m have "split_sep p = butlast ?nc @ [?name] @ replicate m []" by simp
  moreover have "walk f' (start_key p) (butlast ?nc @ [?name] @ replicate m []) = Inr (dir @ [?name])"
    using w1' d' name name_ne new
    by (simp add: walk_append walk_empties)
  ultimately have "resolve f' p = Inr (dir @ [?name])"
    using ne(2) by (simp add: resolve_def)
  with new show ?thesis by (simp add: os_path_isdir_def os_stat_def)
qed

lemma mkdir_exist_ok_isdir: "mkdir_exist_ok f p = Inr f' \<Longrightarrow> os_path_isdir f' p"
  unfolding mkdir_exist_ok_def
  by (auto split: sum.splits if_splits intro: os_mkdir_isdir)

lemma os_makedirs_isdir:
  assumes "snd (makedirs_parts name) \<noteq> ''.''" and "os_makedirs f name = Inr f'"
  shows "os_path_isdir f' name"
proof -
  from assms have "\<exists>g. mkdir_exist_ok g name = Inr f'"
    by (subst (asm) os_makedirs.simps)
       (auto simp: Let_def split: if_splits sum.splits prod.splits)
  then show ?thesis by (auto intro: mkdir_exist_ok_isdir)
qed

lemma os_path_split_snd: "snd (os_path_split p) = os_path_basename p"
  by (simp add: os_path_split_def os_path_basename_def Let_def)

lemma makedirs_parts_join2: "plain_name c \<Longrightarrow> snd (makedirs_parts (join2 a c)) = c"
  by (simp add: makedirs_parts_def os_path_split_snd basename_join2) (simp add: plain_name_def)

lemma os_makedirs_join2_isdir:
  "plain_name c \<Longrightarrow> os_makedirs f (join2 a c) = Inr f' \<Longrightarrow> os_path_isdir f' (join2 a c)"
  by (rule os_makedirs_isdir) (auto simp: makedirs_parts_join2 plain_name_def)

subsection \<open>Evaluation of the examples\<close>

lemmas conv_simps = convert_cardd_to_directory_def conv_world_def conv_files_def conv_load_def
  data_two_def data_none_def

text \<open>The first run of the converter in the example of two runs.\<close>

lemma first_run_outcome:
  "convert_cardd_to_directory id conv_load ''data'' ''out'' conv_world = Done first_run"
  by (simp add: eval_simps conv_simps first_run_def)

text \<open>\<open>os.makedirs\<close> walks the path: a directory named before a \<open>..\<close> component is made
  on the way.\<close>

lemma makedirs_dotdot_example:
  "os_makedirs conv_files ''data/zzz/../../out/train''
     = Inr (conv_files([''data'', ''zzz''] \<mapsto> Dir, [''out''] \<mapsto> Dir, [''out'', ''train''] \<mapsto> Dir))"
  by (simp add: eval_simps conv_files_def)

subsection \<open>The copy loop, image by image\<close>

lemma process_images_append:
  "process_images so od idir sp imap (xs @ ys) w
     = and_then (process_images so od idir sp imap xs w) (process_images so od idir sp imap ys)"
proof (induction xs arbitrary: w)
  case Nil
  show ?case by simp
next
  case (Cons x xs)
  show ?case
    by (cases "process_image so od idir sp imap x w") (simp_all add: Cons.IH)
qed

lemma and_then_Raised: "\<exists>e' w'. and_then x (Raised e) = Raised e' w'"
  by (cases x) simp_all


lemma world_of_and_then_grows:
  assumes "\<And>w1. x = Done w1 \<Longrightarrow> grows (files w1) (files (world_of (k w1)))"
  shows "grows (files (world_of x)) (files (world_of (and_then x k)))"
  using assms by (cases x) (simp_all add: grows_refl)

lemma image_categories_split:
  assumes "image_categories cm anns [] = Inr ic" and "ann \<in> set anns"
  shows "\<exists>pre s post. ic = pre @ (image_id ann, s) # post
           \<and> image_id ann \<notin> fst ` set pre \<and> image_id ann \<notin> fst ` set post"
proof -
  have "fst ` set ic = image_id ` set anns"
    using image_categories_keys [OF assms(1)] by simp
  with assms(2) have "image_id ann \<in> fst ` set ic" by blast
  then obtain s where "(image_id ann, s) \<in> set ic" by force
  then obtain pre post where ic: "ic = pre @ (image_id ann, s) # post"
    by (meson split_list)
  have "distinct (map fst ic)"
    using image_categories_distinct [OF assms(1)] by simp
  then have "image_id ann \<notin> fst ` set pre \<and> image_id ann \<notin> fst ` set post"
    unfolding ic by auto
  with ic show ?thesis by blast
qed

lemma image_categories_entry:
  assumes "image_categories cm anns [] = Inr (pre @ (i, s) # post)"
  shows "set s = {n. \<exists>a \<in> set anns. image_id a = i \<and> cm (category_id a) = Some n}"
    and "s \<noteq> []"
proof -
  let ?ic = "pre @ (i, s) # post"
  have d: "distinct (map fst ?ic)"
    using image_categories_distinct [OF assms] by simp
  have "(i, s) \<in> set ?ic" by simp
  with d have "map_of ?ic i = Some s" by (rule map_of_is_SomeI)
  from image_categories_names [OF assms this]
  show "set s = {n. \<exists>a \<in> set anns. image_id a = i \<and> cm (category_id a) = Some n}"
    by simp
  have "\<forall>it \<in> set ?ic. snd it \<noteq> []"
    using image_categories_nonempty [OF assms] by simp
  then show "s \<noteq> []" by simp
qed

lemma set_iteration_nonempty:
  "set_iteration so \<Longrightarrow> s \<noteq> [] \<Longrightarrow> so s = hd (so s) # tl (so s) \<and> hd (so s) \<in> set s"
proof -
  assume a: "set_iteration so" "s \<noteq> []"
  then have "set (so s) = set s" by (simp add: set_iteration_def)
  with a(2) have "so s \<noteq> []" by auto
  then have "so s = hd (so s) # tl (so s)" by simp
  moreover have "hd (so s) \<in> set s"
    using \<open>so s \<noteq> []\<close> \<open>set (so s) = set s\<close> by (metis hd_in_set)
  ultimately show ?thesis by simp
qed

lemma and_then_cong_Done:
  "(\<And>w1. x = Done w1 \<Longrightarrow> k w1 = k' w1) \<Longrightarrow> and_then x k = and_then x k'"
  by (cases x) simp_all

lemma copied_process_images:
  "copied (world_of (process_images so od idir sp imap items w))
     = copied w @ copies_since w (process_images so od idir sp imap items w)"
  using process_images_copied [of so od idir sp imap items w]
  by (auto simp: copies_since_def)


lemma copies_since_and_then:
  assumes "x = process_images so od idir sp imap items w"
    and "\<And>w1. x = Done w1 \<Longrightarrow> \<exists>new. copied (world_of (k w1)) = copied w1 @ new \<and> filter P new = []"
    and "filter P (copies_since w x) = []"
  shows "filter P (copies_since w (and_then x k)) = []"
proof (cases x)
  case (Done w1)
  from assms(2) [OF Done] obtain new where
    n: "copied (world_of (k w1)) = copied w1 @ new" "filter P new = []"
    by blast
  have "copied w1 = copied w @ copies_since w x"
    using copied_process_images [of so od idir sp imap items w] Done assms(1) by simp
  with n(1) have "copies_since w (k w1) = copies_since w x @ new"
    by (simp add: copies_since_def)
  with n(2) assms(3) Done show ?thesis by simp
next
  case (Raised e w1)
  with assms(3) show ?thesis by simp
qed

lemma process_image_unfold:
  assumes "imap i = Some fn" and "so s = c # cs"
  shows "process_image so od idir sp imap (i, s) w =
     (case os_makedirs (files w) (os_path_join od [sp, c]) of
        Inl (e, f1) \<Rightarrow> Raised e (w\<lparr>files := f1\<rparr>)
      | Inr f1 \<Rightarrow>
          if os_path_exists f1 (os_path_join idir [fn]) then
            (case shutil_copy2 f1 (os_path_join idir [fn])
                    (os_path_join (os_path_join od [sp, c]) [fn]) of
               Inl e \<Rightarrow> Raised e (w\<lparr>files := f1\<rparr>)
             | Inr f2 \<Rightarrow>
                 Done (print (''Copied '' @ fn @ '' to '' @ sp @ ''/'' @ c @ ''/'')
                        (w\<lparr>files := f2, copied := copied w @
                           [(i, os_path_join idir [fn],
                             os_path_join (os_path_join od [sp, c]) [fn])]\<rparr>)))
          else Done (w\<lparr>files := f1\<rparr>))"
  using assms by (auto simp: process_image_def Let_def split: sum.splits prod.splits)

subsection \<open>Where a copy lands\<close>

lemma os_path_isfile_iff: "os_path_isfile f p \<longleftrightarrow> (\<exists>b st. os_stat f p = Inr (File b st))"
  by (auto simp: os_path_isfile_def split: sum.splits node.splits)

lemma grows_isfile: "grows f f' \<Longrightarrow> os_path_isfile f p \<Longrightarrow> os_path_isfile f' p"
  using os_stat_grows [of f f' p]
  by (auto simp: os_path_isfile_iff same_kind_def)

lemma isfile_not_isdir: "os_path_isfile f p \<Longrightarrow> \<not> os_path_isdir f p"
  by (auto simp: os_path_isfile_iff os_path_isdir_def)

lemma open_write_stat:
  assumes "open_write f p b st = Inr f'"
  shows "os_stat f' p = Inr (File b st)"
proof -
  let ?cs = "split_sep p"
  let ?name = "last ?cs"
  from open_write_effect [OF assms] obtain dir where
    w: "walk f (start_key p) (butlast (named_components p) @ [[]]) = Inr dir"
    and ne: "p \<noteq> []" and nc: "named_components p = ?cs"
    and name: "?name \<noteq> ''.''" "?name \<noteq> ''..''"
    and nodir: "lookup f (dir @ [?name]) \<noteq> Some Dir"
    and f': "f' = f(dir @ [?name] \<mapsto> File b st)"
    by blast
  have cs: "?cs \<noteq> []" by (rule split_sep_nonempty)
  have name_ne: "?name \<noteq> []"
    using last_named_components [of p] cs nc by simp
  have g: "grows f f'"
    unfolding grows_def same_kind_def f' using nodir
    by (auto simp: lookup_def split: option.splits node.splits if_splits)
  from w have w1: "walk f (start_key p) (butlast ?cs) = Inr dir" and d: "lookup f dir = Some Dir"
    by (auto simp: nc walk_append split: sum.splits option.splits node.splits)
  from g w1 have w1': "walk f' (start_key p) (butlast ?cs) = Inr dir" by (rule walk_grows)
  from g d have d': "lookup f' dir = Some Dir" by (rule grows_Dir)
  have new: "lookup f' (dir @ [?name]) = Some (File b st)"
    using nodir by (auto simp: f' lookup_def split: if_splits)
  have "?cs = butlast ?cs @ [?name]" using cs by simp
  moreover have "walk f' (start_key p) (butlast ?cs @ [?name]) = Inr (dir @ [?name])"
    using w1' d' name name_ne by (simp add: walk_append)
  ultimately have "resolve f' p = Inr (dir @ [?name])"
    using ne by (simp add: resolve_def)
  with new show ?thesis by (simp add: os_stat_def)
qed

lemma copy_target_grows:
  assumes "grows f f'" and "os_path_isfile f (copy_target f src dst)"
  shows "os_path_isfile f' (copy_target f' src dst)"
proof (cases "os_path_isdir f dst")
  case True
  with assms(1) have "os_path_isdir f' dst" using grows_isdir by blast
  with True assms show ?thesis
    by (simp add: copy_target_def grows_isfile)
next
  case False
  with assms(2) have "os_path_isfile f dst" by (simp add: copy_target_def)
  with assms(1) have "os_path_isfile f' dst" by (rule grows_isfile)
  then show ?thesis
    by (simp add: copy_target_def isfile_not_isdir)
qed

lemma shutil_copy2_isfile:
  assumes "shutil_copy2 f src dst = Inr f'"
  shows "os_path_isfile f' (copy_target f' src dst)"
proof -
  from assms obtain b st where
    "open_write f (copy_target f src dst) b st = Inr f'"
    by (auto simp: shutil_copy2_def copy_target_def Let_def split: if_splits sum.splits node.splits)
  then have "os_stat f' (copy_target f src dst) = Inr (File b st)"
    by (rule open_write_stat)
  then have 1: "os_path_isfile f' (copy_target f src dst)"
    by (simp add: os_path_isfile_iff)
  show ?thesis
  proof (cases "os_path_isdir f dst")
    case True
    with shutil_copy2_grows [OF assms] have "os_path_isdir f' dst" using grows_isdir by blast
    with True 1 show ?thesis by (simp add: copy_target_def)
  next
    case False
    with 1 have "os_path_isfile f' dst" by (simp add: copy_target_def)
    then show ?thesis by (simp add: copy_target_def isfile_not_isdir)
  qed
qed

lemma process_image_lands:
  assumes "(i, src, dst) \<in> set (copies_since w (process_image so od idir sp imap item w))"
  shows "os_path_isfile (files (world_of (process_image so od idir sp imap item w)))
           (copy_target (files (world_of (process_image so od idir sp imap item w))) src dst)"
  using assms unfolding process_image_def Let_def copies_since_def
  by (auto simp: print_def split: option.splits list.splits sum.splits prod.splits if_splits
        dest: shutil_copy2_isfile)

lemma process_images_lands:
  assumes "(i, src, dst) \<in> set (copies_since w (process_images so od idir sp imap items w))"
  shows "os_path_isfile (files (world_of (process_images so od idir sp imap items w)))
           (copy_target (files (world_of (process_images so od idir sp imap items w))) src dst)"
  using assms
proof (induction items arbitrary: w)
  case Nil
  then show ?case by (simp add: copies_since_def)
next
  case (Cons item items)
  show ?case
  proof (cases "process_image so od idir sp imap item w")
    case (Raised e w1)
    with Cons.prems process_image_lands [of i src dst w so od idir sp imap item]
    show ?thesis by simp
  next
    case (Done w1)
    from Cons.prems copies_since_Cons_Done [OF Done, of items]
    consider "(i, src, dst) \<in> set (copies_since w (Done w1))"
      | "(i, src, dst) \<in> set (copies_since w1 (process_images so od idir sp imap items w1))"
      by auto
    then show ?thesis
    proof cases
      case 1
      with process_image_lands [of i src dst w so od idir sp imap item] Done
      have "os_path_isfile (files w1) (copy_target (files w1) src dst)" by simp
      moreover have "grows (files w1) (files (world_of (process_images so od idir sp imap items w1)))"
        by (rule process_images_grows)
      ultimately show ?thesis
        using Done copy_target_grows by simp
    next
      case 2
      from Cons.IH [OF 2] Done show ?thesis by simp
    qed
  qed
qed

subsection \<open>Simple paths\<close>

lemma join_sep_Cons: "cs \<noteq> [] \<Longrightarrow> join_sep (c # cs) = c @ sep # join_sep cs"
  by (cases cs) simp_all

lemma join_sep_Cons_Cons: "join_sep ((a # w) # ws) = a # join_sep (w # ws)"
  by (cases ws) simp_all

lemma join_split: "join_sep (split_sep p) = p"
proof (induction p)
  case Nil
  show ?case by simp
next
  case (Cons a p)
  show ?case
  proof (cases "a = sep")
    case True
    then show ?thesis
      using Cons.IH by (simp add: join_sep_Cons split_sep_nonempty)
  next
    case False
    obtain w ws where s: "split_sep p = w # ws"
      using split_sep_nonempty [of p] by (cases "split_sep p") auto
    with False Cons.IH show ?thesis
      by (simp add: join_sep_Cons_Cons)
  qed
qed

lemma join_sep_snoc: "xs \<noteq> [] \<Longrightarrow> join_sep (xs @ [c]) = join_sep xs @ sep # c"
proof (induction xs)
  case Nil
  then show ?case by simp
next
  case (Cons x xs)
  show ?case
  proof (cases "xs = []")
    case True
    then show ?thesis by simp
  next
    case False
    with Cons.IH show ?thesis by (simp add: join_sep_Cons)
  qed
qed

lemma split_join:
  "cs \<noteq> [] \<Longrightarrow> \<forall>c \<in> set cs. sep \<notin> set c \<Longrightarrow> split_sep (join_sep cs) = cs"
proof (induction cs rule: rev_induct)
  case Nil
  then show ?case by simp
next
  case (snoc c cs)
  show ?case
  proof (cases "cs = []")
    case True
    with snoc.prems show ?thesis by (simp add: split_sep_no_sep)
  next
    case False
    with snoc show ?thesis
      by (simp add: join_sep_snoc split_sep_append split_sep_no_sep)
  qed
qed

lemma split_sep_no_sep_in: "c \<in> set (split_sep p) \<Longrightarrow> sep \<notin> set c"
proof (induction p arbitrary: c)
  case Nil
  then show ?case by simp
next
  case (Cons a p)
  then show ?case
    by (cases "split_sep p") (auto split: if_splits)
qed

lemma split_sep_hd_absolute: "take 1 p = [sep] \<Longrightarrow> split_sep p = [] # split_sep (drop 1 p)"
  by (cases p) (auto split: if_splits)

lemma split_sep_relative: "hd (split_sep p) \<noteq> [] \<Longrightarrow> take 1 p \<noteq> [sep]"
  by (cases p) (auto split: if_splits)

lemma plain_name_not_up: "plain_name c \<Longrightarrow> c \<noteq> ''..''"
  by (simp add: plain_name_def)

lemma dropWhile_ups:
  assumes "list_all (\<lambda>c. c = ''..'') us" and "list_all plain_name ns"
  shows "dropWhile (\<lambda>c. c = ''..'') (us @ ns) = ns"
proof -
  have "dropWhile (\<lambda>c. c = ''..'') (us @ ns) = dropWhile (\<lambda>c. c = ''..'') ns"
    using assms(1) by (intro dropWhile_append2) (simp add: list_all_iff)
  also have "\<dots> = ns"
    using assms(2) by (cases ns) (auto simp: plain_name_def)
  finally show ?thesis .
qed

lemma simple_path_iff:
  "simple_path p \<longleftrightarrow>
     (\<exists>us ns. components p = us @ ns \<and> list_all (\<lambda>c. c = ''..'') us \<and> list_all plain_name ns
        \<and> ns \<noteq> [] \<and> (take 1 p = [sep] \<longrightarrow> us = []))"
proof
  assume s: "simple_path p"
  let ?P = "\<lambda>c. c = ''..''"
  let ?us = "takeWhile ?P (components p)"
  let ?ns = "dropWhile ?P (components p)"
  have "components p = ?us @ ?ns" by simp
  moreover have "list_all ?P ?us"
    by (auto simp: list_all_iff dest: set_takeWhileD)
  moreover have "list_all plain_name ?ns" "?ns \<noteq> []"
    using s by (simp_all add: simple_path_def Let_def)
  moreover have "take 1 p = [sep] \<longrightarrow> ?us = []"
  proof
    assume "take 1 p = [sep]"
    with s have "?ns = components p" by (simp add: simple_path_def Let_def)
    then have "length ?us = 0"
      by (metis add_cancel_left_left length_append takeWhile_dropWhile_id)
    then show "?us = []" by simp
  qed
  ultimately show "\<exists>us ns. components p = us @ ns \<and> list_all ?P us \<and> list_all plain_name ns
        \<and> ns \<noteq> [] \<and> (take 1 p = [sep] \<longrightarrow> us = [])"
    by blast
next
  assume "\<exists>us ns. components p = us @ ns \<and> list_all (\<lambda>c. c = ''..'') us \<and> list_all plain_name ns
        \<and> ns \<noteq> [] \<and> (take 1 p = [sep] \<longrightarrow> us = [])"
  then obtain us ns where c: "components p = us @ ns" "list_all (\<lambda>c. c = ''..'') us"
      "list_all plain_name ns" "ns \<noteq> []" "take 1 p = [sep] \<longrightarrow> us = []"
    by blast
  have "dropWhile (\<lambda>c. c = ''..'') (components p) = ns"
    unfolding c(1) using c(2,3) by (rule dropWhile_ups)
  with c show "simple_path p"
    by (auto simp: simple_path_def Let_def)
qed

lemma components_unsplit:
  "p = (if take 1 p = [sep] then sep # join_sep (components p) else join_sep (components p))"
proof (cases "take 1 p = [sep]")
  case True
  then have "p = sep # drop 1 p" by (cases p) auto
  with True show ?thesis by (simp add: components_def join_split)
next
  case False
  then show ?thesis by (simp add: components_def join_split)
qed

lemma split_sep_simple:
  "split_sep p = (if take 1 p = [sep] then [] # components p else components p)"
  by (simp add: components_def split_sep_hd_absolute)

lemma components_cases:
  assumes "components p = xs @ [c]" and "c \<noteq> []" and "\<forall>x \<in> set xs. x \<noteq> []"
  shows "(xs = [] \<and> (p = c \<or> p = sep # c))
       \<or> (\<exists>q. xs \<noteq> [] \<and> p = q @ sep # c \<and> q \<noteq> [] \<and> last q \<noteq> sep
              \<and> components q = xs \<and> start_key q = start_key p)"
proof (cases "xs = []")
  case True
  with assms(1) components_unsplit [of p] show ?thesis
    by (auto split: if_splits)
next
  case False
  let ?q' = "join_sep xs"
  have nosep: "\<forall>x \<in> set xs. sep \<notin> set x"
  proof
    fix x assume "x \<in> set xs"
    then have "x \<in> set (components p)" using assms(1) by simp
    then show "sep \<notin> set x"
      unfolding components_def by (rule split_sep_no_sep_in)
  qed
  have sq: "split_sep ?q' = xs"
    using False nosep by (rule split_join)
  have q'ne: "?q' \<noteq> []"
  proof
    assume "?q' = []"
    with sq have "xs = [[]]" by simp
    with assms(3) show False by simp
  qed
  have lastq: "last ?q' \<noteq> sep"
  proof
    assume "last ?q' = sep"
    with q'ne obtain r where "?q' = r @ [sep]" by (metis append_butlast_last_id)
    then have "split_sep ?q' = split_sep r @ [[]]" by (simp add: split_sep_snoc_sep)
    with sq have "[] \<in> set xs" by auto
    with assms(3) show False by blast
  qed
  have rel: "take 1 ?q' \<noteq> [sep]"
  proof (rule split_sep_relative)
    from False assms(3) have "hd xs \<noteq> []" by (cases xs) auto
    with sq show "hd (split_sep ?q') \<noteq> []" by simp
  qed
  have js: "join_sep (components p) = ?q' @ sep # c"
    unfolding assms(1) using False by (rule join_sep_snoc)
  show ?thesis
  proof (cases "take 1 p = [sep]")
    case True
    let ?q = "sep # ?q'"
    from True components_unsplit [of p] js have "p = ?q @ sep # c" by simp
    moreover have "components ?q = xs" using sq by (simp add: components_def)
    moreover have "start_key ?q = start_key p" using True by (simp add: start_key_def)
    moreover have "last ?q \<noteq> sep" using lastq q'ne by simp
    ultimately show ?thesis using False by blast
  next
    case rp: False
    from rp components_unsplit [of p] js have "p = ?q' @ sep # c" by simp
    moreover have "components ?q' = xs" using sq rel by (simp add: components_def)
    moreover have "start_key ?q' = start_key p" using rp rel by (simp add: start_key_def)
    ultimately show ?thesis using False q'ne lastq by blast
  qed
qed

lemma simple_path_cases:
  assumes "simple_path p"
  shows "(\<exists>c. plain_name c \<and> (p = c \<or> p = sep # c) \<and> components p = [c])
       \<or> (\<exists>q c. plain_name c \<and> p = q @ sep # c \<and> q \<noteq> [] \<and> last q \<noteq> sep
              \<and> components p = components q @ [c] \<and> start_key q = start_key p
              \<and> (simple_path q
                  \<or> (start_key q = [] \<and> components q \<noteq> []
                      \<and> list_all (\<lambda>c. c = ''..'') (components q))))"
proof -
  from assms obtain us ns where c: "components p = us @ ns" "list_all (\<lambda>c. c = ''..'') us"
      "list_all plain_name ns" "ns \<noteq> []" "take 1 p = [sep] \<longrightarrow> us = []"
    unfolding simple_path_iff by blast
  let ?c = "last ns"
  let ?xs = "us @ butlast ns"
  have cs: "components p = ?xs @ [?c]" using c(1,4) by simp
  have pc: "plain_name ?c" using c(3,4) by (simp add: list_all_iff)
  have bl: "list_all plain_name (butlast ns)"
    using c(3) by (auto simp: list_all_iff dest: in_set_butlastD)
  have ne: "\<forall>x \<in> set ?xs. x \<noteq> []"
    using c(2) bl by (auto simp: list_all_iff plain_name_def)
  from components_cases [OF cs _ ne] pc
  consider "?xs = []" "p = ?c \<or> p = sep # ?c"
    | q where "?xs \<noteq> []" "p = q @ sep # ?c" "q \<noteq> []" "last q \<noteq> sep" "components q = ?xs"
        "start_key q = start_key p"
    by (auto simp: plain_name_def)
  then show ?thesis
  proof cases
    case 1
    with cs pc show ?thesis by auto
  next
    case 2
    have abs: "take 1 q = [sep] \<longrightarrow> us = []"
      using 2(6) c(5) by (auto simp: start_key_def split: if_splits)
    have "simple_path q \<or> (start_key q = [] \<and> components q \<noteq> []
                      \<and> list_all (\<lambda>c. c = ''..'') (components q))"
    proof (cases "butlast ns = []")
      case True
      with 2(1,5) have "components q = us" "us \<noteq> []" by simp_all
      moreover from this abs have "start_key q = []" by (auto simp: start_key_def)
      ultimately show ?thesis using c(2) by simp
    next
      case False
      with 2(5) c(2) bl abs have "simple_path q"
        unfolding simple_path_iff [of q] by blast
      then show ?thesis ..
    qed
    with 2 cs pc show ?thesis by auto
  qed
qed

lemma plain_name_last: "plain_name c \<Longrightarrow> c \<noteq> [] \<and> last c \<noteq> sep"
  unfolding plain_name_def by (metis last_in_set)

lemma simple_path_last: "simple_path p \<Longrightarrow> p \<noteq> [] \<and> last p \<noteq> sep"
  using simple_path_cases [of p] by (auto dest: plain_name_last)

lemma simple_path_join2:
  assumes "simple_path p" and "plain_name c"
  shows "simple_path (join2 p c)" and "path_key (join2 p c) = path_key p @ [c]"
    and "join2 p c = p @ sep # c"
proof -
  from simple_path_last [OF assms(1)] have p: "p \<noteq> []" "last p \<noteq> sep" by simp_all
  show j: "join2 p c = p @ sep # c"
    using p assms(2) by (simp add: join2_plain)
  have t: "take 1 (p @ sep # c) = take 1 p" using p(1) by (cases p) auto
  have comp: "components (p @ sep # c) = components p @ [c]"
  proof (cases "take 1 p = [sep]")
    case True
    then have "drop 1 (p @ sep # c) = drop 1 p @ sep # c" using p(1) by (cases p) auto
    with True t assms(2) show ?thesis
      by (simp add: components_def split_sep_append split_sep_no_sep plain_name_def)
  next
    case False
    with t assms(2) show ?thesis
      by (simp add: components_def split_sep_append split_sep_no_sep plain_name_def)
  qed
  from assms(1) obtain us ns where c: "components p = us @ ns" "list_all (\<lambda>c. c = ''..'') us"
      "list_all plain_name ns" "ns \<noteq> []" "take 1 p = [sep] \<longrightarrow> us = []"
    unfolding simple_path_iff by blast
  have "components (join2 p c) = us @ (ns @ [c])" "list_all plain_name (ns @ [c])"
    using comp c(1,3) assms(2) j by simp_all
  with c(2,5) t j show "simple_path (join2 p c)"
    unfolding simple_path_iff [of "join2 p c"] by (metis snoc_eq_iff_butlast)
  show "path_key (join2 p c) = path_key p @ [c]"
    using comp t j by (simp add: path_key_def start_key_def)
qed

subsection \<open>Walking a simple path\<close>

lemma lookup_None: "lookup f k = None \<Longrightarrow> f k = None"
  by (simp add: lookup_def split: if_splits)

lemma walk_snoc_empty: "walk f cur (cs @ [[]]) = Inr k \<Longrightarrow> walk f cur cs = Inr k"
  by (auto simp: walk_append split: sum.splits option.splits node.splits)

lemma walk_names:
  "walk f cur ns = Inr k \<Longrightarrow> list_all plain_name ns \<Longrightarrow> k = cur @ ns"
proof (induction ns arbitrary: cur)
  case Nil
  then show ?case by simp
next
  case (Cons c ns)
  from Cons.prems(2) have c: "c \<noteq> []" "c \<noteq> ''.''" "c \<noteq> ''..''"
    by (simp_all add: plain_name_def)
  from Cons.prems(1) c have "walk f (cur @ [c]) ns = Inr k"
    by (auto split: option.splits node.splits)
  from Cons.IH [OF this] Cons.prems(2) show ?case by simp
qed

lemma implicit_dir_ups: "list_all (\<lambda>c. c = ''..'') cur \<Longrightarrow> lookup f cur = Some Dir"
  by (simp add: lookup_def implicit_dir_def list_all_iff)

lemma parent_key_ups: "list_all (\<lambda>c. c = ''..'') cur \<Longrightarrow> parent_key cur = cur @ [''..'']"
  by (cases cur rule: rev_cases) (simp_all add: parent_key_def)

lemma walk_ups:
  "list_all (\<lambda>c. c = ''..'') us \<Longrightarrow> list_all (\<lambda>c. c = ''..'') cur \<Longrightarrow>
     walk f cur us = Inr (cur @ us)"
proof (induction us arbitrary: cur)
  case Nil
  then show ?case by simp
next
  case (Cons u us)
  from Cons.prems have u: "u = ''..''" and us: "list_all (\<lambda>c. c = ''..'') us" by simp_all
  have "list_all (\<lambda>c. c = ''..'') (cur @ [''..''])" using Cons.prems(2) by simp
  from Cons.IH [OF us this] show ?case
    using Cons.prems(2) u by (simp add: implicit_dir_ups parent_key_ups)
qed

lemma walk_key:
  assumes "list_all (\<lambda>c. c = ''..'') us" and "list_all plain_name ns"
    and "walk f [] (us @ ns) = Inr k"
  shows "k = us @ ns"
proof -
  have "walk f [] us = Inr us" using walk_ups [OF assms(1), of "[]" f] by simp
  with assms(3) have "walk f us ns = Inr k" by (simp add: walk_append)
  then show ?thesis using assms(2) by (rule walk_names)
qed

lemma walk_key_absolute:
  assumes "list_all plain_name ns" and "walk f [''/''] ([] # ns) = Inr k"
  shows "k = ''/'' # ns"
proof -
  from assms(2) have "walk f [''/''] ns = Inr k"
    by (auto split: option.splits node.splits)
  from walk_names [OF this assms(1)] show ?thesis by simp
qed

lemma walk_simple:
  assumes "components p = us @ ns" and "list_all (\<lambda>c. c = ''..'') us"
    and "list_all plain_name ns" and "take 1 p = [sep] \<longrightarrow> us = []"
    and "list_all plain_name ms"
    and "walk f (start_key p) ((if take 1 p = [sep] then [[]] else []) @ us @ ms) = Inr k"
  shows "k = start_key p @ us @ ms"
proof (cases "take 1 p = [sep]")
  case True
  with assms(4,6) have "walk f [''/''] ([] # ms) = Inr k"
    by (simp add: start_key_def)
  from walk_key_absolute [OF assms(5) this] True assms(4) show ?thesis
    by (simp add: start_key_def)
next
  case False
  with assms(6) have "walk f [] (us @ ms) = Inr k" by (simp add: start_key_def)
  from walk_key [OF assms(2,5) this] False show ?thesis
    by (simp add: start_key_def)
qed

lemma resolve_simple:
  assumes "simple_path p" and "resolve f p = Inr k"
  shows "k = path_key p"
proof -
  from assms(1) obtain us ns where c: "components p = us @ ns" "list_all (\<lambda>c. c = ''..'') us"
      "list_all plain_name ns" "ns \<noteq> []" "take 1 p = [sep] \<longrightarrow> us = []"
    unfolding simple_path_iff by blast
  from assms(2) have "walk f (start_key p) (split_sep p) = Inr k"
    by (auto simp: resolve_def split: if_splits)
  moreover have "split_sep p = (if take 1 p = [sep] then [[]] else []) @ us @ ns"
    by (simp add: split_sep_simple c(1))
  ultimately have "walk f (start_key p) ((if take 1 p = [sep] then [[]] else []) @ us @ ns) = Inr k"
    by (simp only:)
  from walk_simple [OF c(1,2,3,5) c(3) this] show ?thesis
    by (simp add: path_key_def c(1))
qed

lemma named_components_simple:
  assumes "simple_path p"
  shows "named_components p = split_sep p" and "last (split_sep p) = last (components p)"
    and "components p \<noteq> []"
proof -
  from assms obtain us ns where c: "components p = us @ ns" "list_all plain_name ns" "ns \<noteq> []"
    unfolding simple_path_iff by blast
  show ne: "components p \<noteq> []" using c by simp
  show l: "last (split_sep p) = last (components p)"
    using ne by (simp add: split_sep_simple)
  have "plain_name (last ns)" using c(2,3) by (simp add: list_all_iff)
  then have "last (split_sep p) \<noteq> []"
    using l c(1,3) by (simp add: plain_name_def)
  then obtain x xs where r: "rev (split_sep p) = x # xs" "x \<noteq> []"
    using split_sep_nonempty [of p]
    by (metis last_rev list.exhaust_sel rev_is_Nil_conv rev_rev_ident hd_rev)
  then have "dropWhile (\<lambda>c. c = []) (rev (split_sep p)) = rev (split_sep p)"
    by simp
  then show "named_components p = split_sep p"
    by (simp add: named_components_def)
qed

lemma os_mkdir_simple:
  assumes "simple_path p" and "os_mkdir f p = Inr f'"
  shows "f' = f(path_key p \<mapsto> Dir) \<and> f (path_key p) = None"
proof -
  from assms(1) obtain us ns where c: "components p = us @ ns" "list_all (\<lambda>c. c = ''..'') us"
      "list_all plain_name ns" "ns \<noteq> []" "take 1 p = [sep] \<longrightarrow> us = []"
    unfolding simple_path_iff by blast
  note nc = named_components_simple [OF assms(1)]
  from os_mkdir_effect [OF assms(2)] obtain dir where
    w: "walk f (start_key p) (butlast (split_sep p) @ [[]]) = Inr dir"
    and fresh: "lookup f (dir @ [last (components p)]) = None"
    and f': "f' = f(dir @ [last (components p)] \<mapsto> Dir)"
    unfolding nc(1) nc(2) by blast
  have bl: "list_all plain_name (butlast ns)"
    using c(3) by (auto simp: list_all_iff dest: in_set_butlastD)
  have "butlast (split_sep p) = (if take 1 p = [sep] then [[]] else []) @ us @ butlast ns"
    using c(1,4) by (simp add: split_sep_simple butlast_append)
  moreover from w have "walk f (start_key p) (butlast (split_sep p)) = Inr dir"
    by (rule walk_snoc_empty)
  ultimately have "walk f (start_key p) ((if take 1 p = [sep] then [[]] else []) @ us @ butlast ns) = Inr dir"
    by (simp only:)
  from walk_simple [OF c(1,2,3,5) bl this] have "dir = start_key p @ us @ butlast ns" .
  then have "dir @ [last (components p)] = path_key p"
    using c(1,4) by (simp add: path_key_def)
  with fresh f' show ?thesis by (auto dest: lookup_None)
qed

lemma dirs_toward_refl: "dirs_toward d f f"
  by (simp add: dirs_toward_def)

lemma dirs_toward_trans:
  assumes "dirs_toward d1 f g" and "dirs_toward d2 g h" and "prefix d1 d2"
  shows "dirs_toward d2 f h"
  unfolding dirs_toward_def
proof
  fix k
  from assms(1) have 1: "g k = f k \<or> (prefix k d1 \<and> f k = None \<and> g k = Some Dir)"
    by (simp add: dirs_toward_def)
  from assms(2) have 2: "h k = g k \<or> (prefix k d2 \<and> g k = None \<and> h k = Some Dir)"
    by (simp add: dirs_toward_def)
  from 1 2 assms(3) show "h k = f k \<or> (prefix k d2 \<and> f k = None \<and> h k = Some Dir)"
    by (auto intro: prefix_order.trans)
qed

lemma mkdir_exist_ok_simple:
  assumes "simple_path p"
    and "mkdir_exist_ok f p = Inr f' \<or> mkdir_exist_ok f p = Inl (e, f')"
  shows "dirs_toward (path_key p) f f'"
proof (cases "os_mkdir f p")
  case (Inl err)
  with assms(2) have "f' = f"
    by (auto simp: mkdir_exist_ok_def split: if_splits)
  then show ?thesis by (simp add: dirs_toward_refl)
next
  case (Inr g)
  with assms(2) have "f' = g" by (simp add: mkdir_exist_ok_def)
  with os_mkdir_simple [OF assms(1) Inr] show ?thesis
    by (auto simp: dirs_toward_def)
qed

subsection \<open>\<open>os.makedirs\<close> on a simple path\<close>

lemma takeWhile_no_sep:
  assumes "sep \<notin> set c"
  shows "takeWhile (\<lambda>x. x \<noteq> sep) (rev c @ sep # r) = rev c"
    and "dropWhile (\<lambda>x. x \<noteq> sep) (rev c @ sep # r) = sep # r"
    and "takeWhile (\<lambda>x. x \<noteq> sep) (rev c) = rev c"
    and "dropWhile (\<lambda>x. x \<noteq> sep) (rev c) = []"
proof -
  have a: "\<And>x. x \<in> set (rev c) \<Longrightarrow> x \<noteq> sep" using assms by auto
  have "takeWhile (\<lambda>x. x \<noteq> sep) (rev c @ sep # r) = rev c @ takeWhile (\<lambda>x. x \<noteq> sep) (sep # r)"
    using a by (rule takeWhile_append2)
  then show "takeWhile (\<lambda>x. x \<noteq> sep) (rev c @ sep # r) = rev c" by simp
  have "dropWhile (\<lambda>x. x \<noteq> sep) (rev c @ sep # r) = dropWhile (\<lambda>x. x \<noteq> sep) (sep # r)"
    using a by (rule dropWhile_append2)
  then show "dropWhile (\<lambda>x. x \<noteq> sep) (rev c @ sep # r) = sep # r" by simp
  show "takeWhile (\<lambda>x. x \<noteq> sep) (rev c) = rev c"
    using a by (simp add: takeWhile_eq_all_conv)
  show "dropWhile (\<lambda>x. x \<noteq> sep) (rev c) = []"
    using a by (simp add: dropWhile_eq_Nil_conv)
qed

lemma os_path_split_snoc:
  assumes "q \<noteq> []" and "last q \<noteq> sep" and "sep \<notin> set c"
  shows "os_path_split (q @ sep # c) = (q, c)"
proof -
  have tw: "takeWhile (\<lambda>x. x \<noteq> sep) (rev c @ sep # rev q) = rev c"
    using assms(3) by (rule takeWhile_no_sep)
  have dw: "dropWhile (\<lambda>x. x \<noteq> sep) (rev c @ sep # rev q) = sep # rev q"
    using assms(3) by (rule takeWhile_no_sep)
  from assms(1,2) obtain a r where rq: "rev q = a # r" "a \<noteq> sep"
    by (metis last_rev list.exhaust_sel rev_is_Nil_conv rev_rev_ident hd_rev)
  have notall: "\<not> list_all (\<lambda>x. x = sep) (q @ [sep])"
  proof
    assume "list_all (\<lambda>x. x = sep) (q @ [sep])"
    then have "list_all (\<lambda>x. x = sep) (rev q)" by (simp add: list_all_iff)
    with rq show False by simp
  qed
  show ?thesis
    unfolding os_path_split_def Let_def using tw dw notall rq
    by simp
qed

lemma os_path_split_plain: "sep \<notin> set c \<Longrightarrow> os_path_split c = ([], c)"
  by (simp add: os_path_split_def Let_def takeWhile_no_sep)

lemma os_path_split_root: "sep \<notin> set c \<Longrightarrow> os_path_split (sep # c) = ([sep], c)"
proof -
  assume c: "sep \<notin> set c"
  have "takeWhile (\<lambda>x. x \<noteq> sep) (rev c @ [sep]) = rev c"
    using c by (rule takeWhile_no_sep)
  moreover have "dropWhile (\<lambda>x. x \<noteq> sep) (rev c @ [sep]) = [sep]"
    using c by (rule takeWhile_no_sep)
  ultimately show ?thesis
    by (simp add: os_path_split_def Let_def)
qed

lemma exists_root: "os_path_exists f [sep]"
  by (simp add: os_path_exists_def os_stat_def resolve_def start_key_def lookup_def
        implicit_dir_def sep_def)

lemma exists_ups:
  assumes "start_key q = []" and "components q \<noteq> []"
    and "list_all (\<lambda>c. c = ''..'') (components q)"
  shows "os_path_exists f q"
proof -
  from assms(1) have rel: "take 1 q \<noteq> [sep]" by (auto simp: start_key_def split: if_splits)
  then have s: "split_sep q = components q" by (simp add: components_def)
  have "q \<noteq> []"
    using assms(2,3) by (cases q) (auto simp: components_def)
  moreover have "walk f [] (components q) = Inr (components q)"
    using walk_ups [OF assms(3), of "[]" f] by simp
  ultimately have "resolve f q = Inr (components q)"
    using assms(1) s by (simp add: resolve_def)
  then show ?thesis
    using implicit_dir_ups [OF assms(3), of f] by (simp add: os_path_exists_def os_stat_def)
qed

lemma makedirs_parts_simple:
  assumes "simple_path p"
  shows "fst (makedirs_parts p) = []
       \<or> os_path_exists f (fst (makedirs_parts p))
       \<or> (simple_path (fst (makedirs_parts p))
           \<and> prefix (path_key (fst (makedirs_parts p))) (path_key p))"
proof -
  from simple_path_cases [OF assms]
  consider c where "plain_name c" "p = c \<or> p = sep # c"
    | q c where "plain_name c" "p = q @ sep # c" "q \<noteq> []" "last q \<noteq> sep"
        "components p = components q @ [c]" "start_key q = start_key p"
        "simple_path q \<or> (start_key q = [] \<and> components q \<noteq> []
                      \<and> list_all (\<lambda>c. c = ''..'') (components q))"
    by blast
  then show ?thesis
  proof cases
    case 1
    then have "os_path_split p = ([], c) \<or> os_path_split p = ([sep], c)"
      by (auto simp: plain_name_def os_path_split_plain os_path_split_root)
    then have "fst (makedirs_parts p) = [] \<or> fst (makedirs_parts p) = [sep]"
      using 1(1) by (auto simp: makedirs_parts_def plain_name_def)
    then show ?thesis using exists_root by auto
  next
    case 2
    have "os_path_split p = (q, c)"
      unfolding 2(2) using 2(3,4) 2(1) by (intro os_path_split_snoc) (simp_all add: plain_name_def)
    then have h: "fst (makedirs_parts p) = q"
      using 2(1) by (simp add: makedirs_parts_def plain_name_def)
    have "prefix (path_key q) (path_key p)"
      using 2(5,6) by (simp add: path_key_def)
    with 2(7) h show ?thesis
      using exists_ups [of q f] by auto
  qed
qed

lemma os_makedirs_simple:
  "simple_path name \<Longrightarrow>
     (os_makedirs f name = Inr f' \<or> os_makedirs f name = Inl (e, f')) \<Longrightarrow>
     dirs_toward (path_key name) f f'"
proof (induction f name arbitrary: f' e rule: os_makedirs.induct)
  case (1 f name)
  let ?head = "fst (makedirs_parts name)"
  let ?tail = "snd (makedirs_parts name)"
  show ?case
  proof (cases "?head \<noteq> [] \<and> ?tail \<noteq> [] \<and> \<not> os_path_exists f ?head")
    case False
    then have eq: "os_makedirs f name = mkdir_exist_ok f name"
      by (subst os_makedirs.simps) (auto simp: Let_def)
    from "1.prems" show ?thesis
      unfolding eq by (rule mkdir_exist_ok_simple)
  next
    case True
    with makedirs_parts_simple [OF "1.prems"(1), of f]
    have head: "simple_path ?head" "prefix (path_key ?head) (path_key name)"
      by auto
    have ih: "dirs_toward (path_key ?head) f g"
      if "os_makedirs f ?head = Inr g \<or> os_makedirs f ?head = Inl (e', g)" for g e'
      using "1.IH" [OF refl refl True head(1) that] .
    have step: "dirs_toward (path_key name) g h"
      if "h = g \<or> mkdir_exist_ok g name = Inr h \<or> mkdir_exist_ok g name = Inl (e', h)" for g h e'
      using that mkdir_exist_ok_simple [OF "1.prems"(1), of g h e']
      by (auto simp: dirs_toward_refl)
    show ?thesis
    proof (cases "os_makedirs f ?head")
      case (Inl a)
      obtain e1 f1 where a: "a = (e1, f1)" by (cases a)
      have 1: "dirs_toward (path_key ?head) f f1" using ih [of f1 e1] Inl a by simp
      have "f' = f1 \<or> mkdir_exist_ok f1 name = Inr f' \<or> mkdir_exist_ok f1 name = Inl (e, f')"
        using "1.prems"(2) True Inl a
        by (subst (asm) (1 2) os_makedirs.simps) (auto simp: Let_def split: if_splits)
      from step [OF this] 1 head(2) show ?thesis
        by (blast intro: dirs_toward_trans)
    next
      case (Inr f1)
      have 1: "dirs_toward (path_key ?head) f f1" using ih [of f1] Inr by simp
      have "f' = f1 \<or> mkdir_exist_ok f1 name = Inr f' \<or> mkdir_exist_ok f1 name = Inl (e, f')"
        using "1.prems"(2) True Inr
        by (subst (asm) (1 2) os_makedirs.simps) (auto simp: Let_def split: if_splits)
      from step [OF this] 1 head(2) show ?thesis
        by (blast intro: dirs_toward_trans)
    qed
  qed
qed

subsection \<open>Writes at the output directory and below\<close>

lemma confined_refl: "confined d f f"
  by (simp add: confined_def)

lemma confined_trans:
  assumes "confined d f g" and "confined d g h"
  shows "confined d f h"
  unfolding confined_def
proof
  fix k
  from assms(1) have 1: "g k = f k \<or> prefix d k \<or> (prefix k d \<and> f k = None \<and> g k = Some Dir)"
    by (simp add: confined_def)
  from assms(2) have 2: "h k = g k \<or> prefix d k \<or> (prefix k d \<and> g k = None \<and> h k = Some Dir)"
    by (simp add: confined_def)
  from 1 2 show "h k = f k \<or> prefix d k \<or> (prefix k d \<and> f k = None \<and> h k = Some Dir)"
    by auto
qed

lemma dirs_toward_confined:
  assumes "dirs_toward d' f f'" and "prefix d d'"
  shows "confined d f f'"
  unfolding confined_def
proof
  fix k
  from assms(1) have "f' k = f k \<or> (prefix k d' \<and> f k = None \<and> f' k = Some Dir)"
    by (simp add: dirs_toward_def)
  moreover have "prefix k d \<or> prefix d k" if "prefix k d'"
    using that assms(2) by (metis prefix_same_cases)
  ultimately show "f' k = f k \<or> prefix d k \<or> (prefix k d \<and> f k = None \<and> f' k = Some Dir)"
    by auto
qed

lemma confined_update: "prefix d k \<Longrightarrow> confined d f (f(k \<mapsto> n))"
  by (simp add: confined_def)

lemma confined_outside:
  assumes "confined ko f f'"
    and "\<not> prefix kc ko"
    and "\<not> prefix ko kc"
    and "prefix kc k"
  shows "f' k = f k"
proof (rule ccontr)
  assume "f' k \<noteq> f k"
  with assms(1) have "prefix ko k \<or> prefix k ko"
    by (auto simp: confined_def)
  then show False
  proof
    assume "prefix ko k"
    with assms(4) have "prefix ko kc \<or> prefix kc ko"
      by (metis prefix_same_cases)
    with assms(2,3) show False by blast
  next
    assume "prefix k ko"
    with assms(4) have "prefix kc ko" by (rule prefix_order.trans)
    with assms(2) show False by blast
  qed
qed

lemma files_print: "files (print s w) = files w"
  by (simp add: print_def)

lemma plain_name_literals:
  "plain_name ''train''" "plain_name ''val''" "plain_name ''test''" "plain_name ''annotations''"
  "plain_name ''instances_train2017.json''" "plain_name ''instances_val2017.json''"
  "plain_name ''instances_test2017.json''"
  by (simp_all add: plain_name_def sep_def)

lemma and_then_confined:
  assumes "confined od f (files (world_of out))"
    and "\<And>w1. out = Done w1 \<Longrightarrow> confined od f (files w1)
           \<Longrightarrow> confined od (files w1) (files (world_of (k w1)))"
  shows "confined od f (files (world_of (and_then out k)))"
proof (cases out)
  case (Done w1)
  with assms(1) have c: "confined od f (files w1)" by simp
  from assms(2) [OF Done c] c Done show ?thesis
    by (auto intro: confined_trans)
next
  case (Raised e w1)
  with assms(1) show ?thesis by simp
qed

lemma os_makedirs_confined:
  assumes "simple_path p" and "prefix d (path_key p)"
    and "os_makedirs f p = Inr f' \<or> os_makedirs f p = Inl (e, f')"
  shows "confined d f f'"
  using os_makedirs_simple [OF assms(1,3)] assms(2) by (rule dirs_toward_confined)

lemma make_split_dirs_confined:
  assumes "simple_path od"
  shows "\<forall>sp \<in> set splits. plain_name sp \<Longrightarrow>
     confined (path_key od) (files w) (files (world_of (make_split_dirs od splits w)))"
proof (induction splits arbitrary: w)
  case Nil
  then show ?case by (simp add: confined_refl)
next
  case (Cons sp splits)
  then have sp: "plain_name sp" by simp
  have j: "os_path_join od [sp] = join2 od sp" by (simp add: os_path_join_def)
  have s: "simple_path (os_path_join od [sp])"
    and pre: "prefix (path_key od) (path_key (os_path_join od [sp]))"
    unfolding j using simple_path_join2 [OF assms sp] by simp_all
  show ?case
  proof (cases "os_makedirs (files w) (os_path_join od [sp])")
    case (Inl a)
    obtain e f1 where a: "a = (e, f1)" by (cases a)
    with Inl have "confined (path_key od) (files w) f1"
      using os_makedirs_confined [OF s pre, of "files w" f1 e] by simp
    with Inl a show ?thesis by simp
  next
    case (Inr f1)
    then have "confined (path_key od) (files w) f1"
      using os_makedirs_confined [OF s pre, of "files w" f1] by simp
    moreover have "confined (path_key od) f1
        (files (world_of (make_split_dirs od splits (w\<lparr>files := f1\<rparr>))))"
      using Cons.IH [of "w\<lparr>files := f1\<rparr>"] Cons.prems by simp
    ultimately show ?thesis using Inr by (auto intro: confined_trans)
  qed
qed

lemma shutil_copy2_confined:
  assumes "simple_path cdir" and "plain_name fn" and "os_path_isdir f cdir"
    and "shutil_copy2 f (join2 idir fn) (join2 cdir fn) = Inr f'"
  shows "confined (path_key cdir) f f'"
proof -
  from isdir_resolve [OF assms(3)] obtain kd where
    kd: "resolve f cdir = Inr kd" "lookup f kd = Some Dir" by blast
  from resolve_simple [OF assms(1) kd(1)] have key: "kd = path_key cdir" .
  let ?dst = "join2 cdir fn"
  show ?thesis
  proof (cases "os_path_isdir f ?dst")
    case False
    with assms(4) obtain b st where "open_write f ?dst b st = Inr f'"
      by (auto simp: shutil_copy2_def Let_def split: if_splits sum.splits node.splits)
    then have "f' = f(kd @ [fn] \<mapsto> File b st)"
      unfolding open_write_join2_dir [OF assms(2) kd]
      by (auto split: option.splits node.splits)
    then show ?thesis
      unfolding key by (simp add: confined_update)
  next
    case True
    have r: "resolve f ?dst = Inr (kd @ [fn])"
      using assms(2) kd by (rule resolve_join2_dir)
    from isdir_resolve [OF True] r have d: "lookup f (kd @ [fn]) = Some Dir" by auto
    have "os_path_basename (join2 idir fn) = fn"
      using assms(2) by (rule basename_join2)
    with True assms(4) obtain b st where "open_write f (join2 ?dst fn) b st = Inr f'"
      by (auto simp: shutil_copy2_def Let_def os_path_join_def
            split: if_splits sum.splits node.splits)
    then have "f' = f((kd @ [fn]) @ [fn] \<mapsto> File b st)"
      unfolding open_write_join2_dir [OF assms(2) r d]
      by (auto split: option.splits node.splits)
    then show ?thesis
      unfolding key by (simp add: confined_update)
  qed
qed

lemma process_image_confined:
  assumes "simple_path od" and "plain_name sp"
    and "\<And>fn. imap i = Some fn \<Longrightarrow> plain_name fn"
    and "\<And>c cs. so s = c # cs \<Longrightarrow> plain_name c"
  shows "confined (path_key od) (files w)
           (files (world_of (process_image so od idir sp imap (i, s) w)))"
proof (cases "imap i")
  case None
  then show ?thesis by (simp add: process_image_def confined_refl)
next
  case (Some fn)
  show ?thesis
  proof (cases "so s")
    case Nil
    with Some show ?thesis by (simp add: process_image_def confined_refl)
  next
    case (Cons c cs)
    note body = process_image_unfold [of imap i fn so s c cs, OF Some Cons]
    have fn: "plain_name fn" using Some by (rule assms(3))
    have c: "plain_name c" using Cons by (rule assms(4))
    let ?cdir = "os_path_join od [sp, c]"
    have j: "?cdir = join2 (join2 od sp) c" by (simp add: os_path_join_def)
    have s1: "simple_path (join2 od sp)" "path_key (join2 od sp) = path_key od @ [sp]"
      using simple_path_join2 [OF assms(1,2)] by simp_all
    have s2: "simple_path ?cdir" "path_key ?cdir = path_key od @ [sp, c]"
      unfolding j using simple_path_join2 [OF s1(1) c] s1(2) by simp_all
    have pre: "prefix (path_key od) (path_key ?cdir)" unfolding s2(2) by simp
    show ?thesis
    proof (cases "os_makedirs (files w) ?cdir")
      case (Inl a)
      obtain e f1 where a: "a = (e, f1)" by (cases a)
      with Inl have "confined (path_key od) (files w) f1"
        using os_makedirs_confined [OF s2(1) pre, of "files w" f1 e] by simp
      with Inl a show ?thesis by (simp add: body)
    next
      case (Inr f1)
      then have c1: "confined (path_key od) (files w) f1"
        using os_makedirs_confined [OF s2(1) pre, of "files w" f1] by simp
      have dir: "os_path_isdir f1 ?cdir"
        using c Inr unfolding j by (intro os_makedirs_join2_isdir)
      show ?thesis
      proof (cases "os_path_exists f1 (os_path_join idir [fn])")
        case False
        with Inr c1 show ?thesis by (simp add: body)
      next
        case True
        show ?thesis
        proof (cases "shutil_copy2 f1 (os_path_join idir [fn]) (os_path_join ?cdir [fn])")
          case (Inl e)
          with Inr True c1 show ?thesis by (simp add: body)
        next
          case copy: (Inr f2)
          then have "shutil_copy2 f1 (join2 idir fn) (join2 ?cdir fn) = Inr f2"
            by (simp add: os_path_join_def)
          from shutil_copy2_confined [OF s2(1) fn dir this]
          have "confined (path_key ?cdir) f1 f2" .
          then have "confined (path_key od) f1 f2"
            unfolding confined_def s2(2)
            by (metis append_prefixD prefix_order.trans prefixI prefix_same_cases)
          with c1 have "confined (path_key od) (files w) f2" by (rule confined_trans)
          with Inr True copy show ?thesis by (simp add: body files_print)
        qed
      qed
    qed
  qed
qed

lemma process_images_confined:
  assumes "simple_path od" and "plain_name sp"
    and "\<And>i fn. imap i = Some fn \<Longrightarrow> plain_name fn"
  shows "(\<And>i s c cs. (i, s) \<in> set items \<Longrightarrow> so s = c # cs \<Longrightarrow> plain_name c) \<Longrightarrow>
     confined (path_key od) (files w)
       (files (world_of (process_images so od idir sp imap items w)))"
proof (induction items arbitrary: w)
  case Nil
  show ?case by (simp add: confined_refl)
next
  case (Cons item items)
  obtain i s where item: "item = (i, s)" by (cases item)
  have 1: "confined (path_key od) (files w)
             (files (world_of (process_image so od idir sp imap (i, s) w)))"
    using assms(1,2)
  proof (rule process_image_confined)
    show "\<And>fn. imap i = Some fn \<Longrightarrow> plain_name fn" by (rule assms(3))
    show "\<And>c cs. so s = c # cs \<Longrightarrow> plain_name c"
      using Cons.prems [of i s] item by simp
  qed
  show ?case
    unfolding item process_images.simps
  proof (rule and_then_confined [OF 1])
    fix w1
    show "confined (path_key od) (files w1)
            (files (world_of (process_images so od idir sp imap items w1)))"
      using Cons.prems by (intro Cons.IH) auto
  qed
qed

lemma open_read_simple:
  assumes "simple_path p" and "open_read f p = Inr body"
  shows "\<exists>st. f (path_key p) = Some (File body st)"
proof -
  from assms(2) obtain st where "os_stat f p = Inr (File body st)"
    by (auto simp: open_read_def split: sum.splits node.splits)
  then obtain k where k: "resolve f p = Inr k" "lookup f k = Some (File body st)"
    by (auto simp: os_stat_def split: sum.splits option.splits)
  from resolve_simple [OF assms(1) k(1)] k(2) show ?thesis
    by (auto simp: lookup_def split: if_splits)
qed

lemma process_split_confined:
  assumes "set_iteration so" and "simple_path od" and "plain_name sp"
    and "simple_path json_path"
    and "reads_plain_names json_load (files w) json_path"
  shows "confined (path_key od) (files w)
           (files (world_of (process_split so json_load od json_path idir sp w)))"
proof (cases "open_read (files w) json_path")
  case (Inl e)
  then show ?thesis by (simp add: process_split_def confined_refl)
next
  case (Inr body)
  note rd = Inr
  show ?thesis
  proof (cases "json_load body")
    case None
    with rd show ?thesis by (simp add: process_split_def confined_refl)
  next
    case (Some data)
    from open_read_simple [OF assms(4) rd] Some assms(5) have plain: "plain_names data"
      by (auto simp: reads_plain_names_def)
    show ?thesis
    proof (cases "image_categories (category_map (categories data)) (annotations data) []")
      case (Inl e)
      with rd Some show ?thesis by (simp add: process_split_def confined_refl)
    next
      case (Inr ic)
      note ic = Inr
      have cats: "plain_name c" if "(i, s) \<in> set ic" "so s = c # cs" for i s c cs
      proof -
        have "c \<in> set s" using set_iteration_hd [OF assms(1) that(2)] by blast
        moreover have "distinct (map fst ic)"
          using image_categories_distinct [OF ic] by simp
        with that(1) have "map_of ic i = Some s" by simp
        from image_categories_names [OF ic this]
        have "set s = {n. \<exists>a \<in> set (annotations data). image_id a = i
                 \<and> category_map (categories data) (category_id a) = Some n}"
          by simp
        ultimately obtain a :: annotation where
          "category_map (categories data) (category_id a) = Some c"
          by auto
        from category_map_Some [OF this] plain show ?thesis
          by (auto simp: plain_names_def)
      qed
      have imgs: "plain_name fn" if "image_map (images data) i = Some fn" for i fn
        using image_map_Some [OF that] plain by (auto simp: plain_names_def)
      have "confined (path_key od) (files w)
              (files (world_of (process_images so od idir sp (image_map (images data)) ic w)))"
        using assms(2,3) imgs cats by (rule process_images_confined)
      with rd Some ic show ?thesis by (simp add: process_split_def)
    qed
  qed
qed

lemma reads_plain_names_same:
  "reads_plain_names jl f p \<Longrightarrow> f' (path_key p) = f (path_key p) \<Longrightarrow> reads_plain_names jl f' p"
  by (simp add: reads_plain_names_def)

lemma annotation_path:
  assumes "simple_path cd" and "plain_name n"
  shows "simple_path (os_path_join cd [''annotations'', n])"
    and "path_key (os_path_join cd [''annotations'', n]) = path_key cd @ [''annotations'', n]"
proof -
  have j: "os_path_join cd [''annotations'', n] = join2 (join2 cd ''annotations'') n"
    by (simp add: os_path_join_def)
  have 1: "simple_path (join2 cd ''annotations'')"
    "path_key (join2 cd ''annotations'') = path_key cd @ [''annotations'']"
    using simple_path_join2 [OF assms(1) plain_name_literals(4)] by simp_all
  show "simple_path (os_path_join cd [''annotations'', n])"
    unfolding j using simple_path_join2 [OF 1(1) assms(2)] by simp
  show "path_key (os_path_join cd [''annotations'', n]) = path_key cd @ [''annotations'', n]"
    unfolding j using simple_path_join2 [OF 1(1) assms(2)] 1(2) by simp
qed

section \<open>The properties\<close>

text \<open>C1. Every copy that \<open>process_split\<close> makes is the copy of an image of the images
  list that has an annotation. Its source is the image's file name inside \<open>img_dir\<close>. Its
  destination is \<open>os.path.join(output_dir, split_name, category, file_name)\<close>, where the
  category is the name of a category of the categories list that one of the image's
  annotations refers to, and it is the first element of the list made from the image's
  set of category names. When no component starts with a separator and none but the
  file name is empty or ends with one, that path is the text
  \<open>output_dir/split_name/category/file_name\<close>; otherwise it need not be: in the second
  example the category name is \<open>/tmp/x\<close> and the image goes to \<open>/tmp/x/a.jpg\<close>, with
  nothing under \<open>out\<close>. After the call a regular file is at the destination, or inside it
  under the base name of the source when the destination is a directory.\<close>

theorem copy_destination:
  assumes "set_iteration set_order"
    and "open_read (files w) json_path = Inr text"
    and "json_load text = Some data"
    and "(i, src, dst) \<in> set (copies_since w
            (process_split set_order json_load output_dir json_path img_dir split_name w))"
  shows "\<exists>img ann cat ic s.
           img \<in> set (images data) \<and> img_id img = i
         \<and> ann \<in> set (annotations data) \<and> image_id ann = i
         \<and> cat \<in> set (categories data) \<and> cat_id cat = category_id ann
         \<and> image_categories (category_map (categories data)) (annotations data) [] = Inr ic
         \<and> (i, s) \<in> set ic \<and> cat_name cat = hd (set_order s)
         \<and> src = os_path_join img_dir [file_name img]
         \<and> dst = os_path_join output_dir [split_name, cat_name cat, file_name img]
         \<and> (output_dir \<noteq> [] \<and> last output_dir \<noteq> sep
              \<and> split_name \<noteq> [] \<and> hd split_name \<noteq> sep \<and> last split_name \<noteq> sep
              \<and> cat_name cat \<noteq> [] \<and> hd (cat_name cat) \<noteq> sep \<and> last (cat_name cat) \<noteq> sep
              \<and> take 1 (file_name img) \<noteq> [sep]
            \<longrightarrow> dst = output_dir @ ''/'' @ split_name @ ''/'' @ cat_name cat @ ''/'' @ file_name img)
         \<and> os_path_isfile
             (files (world_of (process_split set_order json_load output_dir json_path img_dir
                                 split_name w)))
             (copy_target
                (files (world_of (process_split set_order json_load output_dir json_path img_dir
                                    split_name w))) src dst)"
proof -
  let ?cm = "category_map (categories data)"
  let ?out = "process_split set_order json_load output_dir json_path img_dir split_name w"
  obtain ic where ic: "image_categories ?cm (annotations data) [] = Inr ic"
    using assms(2,3,4) by (cases "image_categories ?cm (annotations data) []")
      (auto simp: process_split_def)
  with assms(2,3) have out: "?out
      = process_images set_order output_dir img_dir split_name (image_map (images data)) ic w"
    by (simp add: process_split_def)
  with assms(4) have mem: "(i, src, dst) \<in> set (copies_since w
        (process_images set_order output_dir img_dir split_name (image_map (images data)) ic w))"
    by simp
  from process_images_lands [OF mem]
  have lands: "os_path_isfile (files (world_of ?out)) (copy_target (files (world_of ?out)) src dst)"
    unfolding out .
  from mem obtain item where item: "item \<in> set ic"
      "copy_of_item set_order output_dir img_dir split_name (image_map (images data)) item (i, src, dst)"
    using copies_since_process_images by blast
  then obtain fn c cs where e: "image_map (images data) (fst item) = Some fn"
      "set_order (snd item) = c # cs" "fst item = i" "src = os_path_join img_dir [fn]"
      "dst = os_path_join (os_path_join output_dir [split_name, c]) [fn]"
    by (auto simp: copy_of_item_def)
  obtain s where s: "item = (i, s)" using e(3) by (cases item) auto
  from e(1,3) obtain img where img: "img \<in> set (images data)" "img_id img = i" "file_name img = fn"
    using image_map_Some by blast
  have c: "c \<in> set s" "c = hd (set_order s)"
    using set_iteration_hd [OF assms(1)] e(2) s by auto
  have "distinct (map fst ic)"
    using image_categories_distinct [OF ic] by simp
  with item(1) s have "map_of ic i = Some s" by simp
  from image_categories_names [OF ic this] c(1)
  obtain ann where ann: "ann \<in> set (annotations data)" "image_id ann = i" "?cm (category_id ann) = Some c"
    by auto
  from category_map_Some [OF ann(3)]
  obtain cat where cat: "cat \<in> set (categories data)" "cat_id cat = category_id ann" "cat_name cat = c"
    by blast
  have dst: "dst = os_path_join output_dir [split_name, cat_name cat, file_name img]"
    using e(5) cat(3) img(3) by (simp add: os_path_join_snoc)
  have lit: "dst = output_dir @ ''/'' @ split_name @ ''/'' @ cat_name cat @ ''/'' @ file_name img"
    if "output_dir \<noteq> [] \<and> last output_dir \<noteq> sep
              \<and> split_name \<noteq> [] \<and> hd split_name \<noteq> sep \<and> last split_name \<noteq> sep
              \<and> cat_name cat \<noteq> [] \<and> hd (cat_name cat) \<noteq> sep \<and> last (cat_name cat) \<noteq> sep
              \<and> take 1 (file_name img) \<noteq> [sep]"
  proof -
    have 1: "join2 output_dir split_name = output_dir @ [sep] @ split_name"
      using that by (intro join2_literal) (auto simp: take_Suc hd_conv_nth [symmetric])
    have 2: "join2 (output_dir @ [sep] @ split_name) (cat_name cat)
               = (output_dir @ [sep] @ split_name) @ [sep] @ cat_name cat"
      using that by (intro join2_literal) (auto simp: take_Suc)
    have 3: "join2 ((output_dir @ [sep] @ split_name) @ [sep] @ cat_name cat) (file_name img)
               = ((output_dir @ [sep] @ split_name) @ [sep] @ cat_name cat) @ [sep] @ file_name img"
      using that by (intro join2_literal) auto
    show ?thesis
      unfolding dst os_path_join_def using 1 2 3 by (simp add: sep_def)
  qed
  from img(1,2) ann(1,2) cat(1,2) ic item(1) s c(2) cat(3) e(4) img(3) dst lit lands
  show ?thesis by blast
qed

theorem copy_destination_witness:
  "copies_since example_world
      (process_split rev (\<lambda>t. Some data_two) ''out'' ''coco/ann.json'' ''coco/train2017'' ''train''
         example_world)
     = [(10, ''coco/train2017/a.jpg'', ''out/train/scratch/a.jpg'')]
   \<and> image_categories (category_map (categories data_two)) (annotations data_two) []
        = Inr [(10, [''dent'', ''scratch''])]
   \<and> files (world_of (process_split rev (\<lambda>t. Some data_two) ''out'' ''coco/ann.json''
        ''coco/train2017'' ''train'' example_world))
       = example_files([''out''] \<mapsto> Dir, [''out'', ''train''] \<mapsto> Dir,
           [''out'', ''train'', ''scratch''] \<mapsto> Dir,
           [''out'', ''train'', ''scratch'', ''a.jpg''] \<mapsto> File ''JPEG'' 7)
   \<and> os_path_isfile
        (files (world_of (process_split rev (\<lambda>t. Some data_two) ''out'' ''coco/ann.json''
           ''coco/train2017'' ''train'' example_world)))
        ''out/train/scratch/a.jpg''"
proof -
  have 1: "set_iteration rev"
    by (simp add: set_iteration_def)
  have 2: "open_read (files example_world) ''coco/ann.json'' = Inr ''J''"
    by (simp add: eval_simps example_world_def example_files_def)
  have 3: "(\<lambda>t. Some data_two) ''J'' = Some data_two"
    by simp
  have 5: "process_split rev (\<lambda>t. Some data_two) ''out'' ''coco/ann.json'' ''coco/train2017''
      ''train'' example_world
     = Done \<lparr>files = example_files([''out''] \<mapsto> Dir, [''out'', ''train''] \<mapsto> Dir,
           [''out'', ''train'', ''scratch''] \<mapsto> Dir,
           [''out'', ''train'', ''scratch'', ''a.jpg''] \<mapsto> File ''JPEG'' 7),
          stdout = [''Copied a.jpg to train/scratch/''],
          copied = [(10, ''coco/train2017/a.jpg'', ''out/train/scratch/a.jpg'')]\<rparr>"
    by (simp add: eval_simps example_world_def example_files_def data_two_def)
  have 4: "(10, ''coco/train2017/a.jpg'', ''out/train/scratch/a.jpg'') \<in> set (copies_since example_world
      (process_split rev (\<lambda>t. Some data_two) ''out'' ''coco/ann.json'' ''coco/train2017'' ''train''
         example_world))"
    unfolding 5 by (simp add: copies_since_def example_world_def)
  have 6: "copies_since example_world
      (process_split rev (\<lambda>t. Some data_two) ''out'' ''coco/ann.json'' ''coco/train2017'' ''train''
         example_world)
     = [(10, ''coco/train2017/a.jpg'', ''out/train/scratch/a.jpg'')]"
    unfolding 5 by (simp add: copies_since_def example_world_def)
  have 7: "image_categories (category_map (categories data_two)) (annotations data_two) []
        = Inr [(10, [''dent'', ''scratch''])]"
    by (simp add: eval_simps data_two_def)
  have 8: "copy_target (example_files([''out''] \<mapsto> Dir, [''out'', ''train''] \<mapsto> Dir,
           [''out'', ''train'', ''scratch''] \<mapsto> Dir,
           [''out'', ''train'', ''scratch'', ''a.jpg''] \<mapsto> File ''JPEG'' 7))
        ''coco/train2017/a.jpg'' ''out/train/scratch/a.jpg'' = ''out/train/scratch/a.jpg''"
    by (simp add: copy_target_def eval_simps example_files_def)
  from copy_destination [OF 1 2 3 4] 5 6 7 8 show ?thesis
    by auto
qed

theorem copy_destination_counterexample:
  "open_read (files example_world) ''coco/ann.json'' = Inr ''J''
   \<and> process_split id (\<lambda>t. Some data_absolute) ''out'' ''coco/ann.json'' ''coco/train2017''
        ''train'' example_world
      = Done \<lparr>files = example_files([''/'', ''tmp''] \<mapsto> Dir, [''/'', ''tmp'', ''x''] \<mapsto> Dir,
                 [''/'', ''tmp'', ''x'', ''a.jpg''] \<mapsto> File ''JPEG'' 7),
               stdout = [''Copied a.jpg to train//tmp/x/''],
               copied = [(10, ''coco/train2017/a.jpg'', ''/tmp/x/a.jpg'')]\<rparr>
   \<and> ''out'' @ ''/'' @ ''train'' @ ''/'' @ ''/tmp/x'' @ ''/'' @ ''a.jpg'' = ''out/train//tmp/x/a.jpg''
   \<and> \<not> os_path_exists
          (example_files([''/'', ''tmp''] \<mapsto> Dir, [''/'', ''tmp'', ''x''] \<mapsto> Dir,
             [''/'', ''tmp'', ''x'', ''a.jpg''] \<mapsto> File ''JPEG'' 7))
          ''out/train//tmp/x/a.jpg''
   \<and> (\<forall>k. (example_files([''/'', ''tmp''] \<mapsto> Dir, [''/'', ''tmp'', ''x''] \<mapsto> Dir,
             [''/'', ''tmp'', ''x'', ''a.jpg''] \<mapsto> File ''JPEG'' 7)) (''out'' # k) = None)"
  by (simp add: eval_simps example_world_def example_files_def data_absolute_def)




text \<open>C3. When an annotation has a category id that is no id of the categories list,
  \<open>process_split\<close> raises \<open>KeyError\<close> for the first such annotation, and the world is
  as it was before the call: no directory was made and no image of the split was copied.\<close>

theorem unknown_category_aborts:
  assumes "open_read (files w) json_path = Inr text"
    and "json_load text = Some data"
    and "ann \<in> set (annotations data)"
    and "category_id ann \<notin> cat_id ` set (categories data)"
  shows "\<exists>a \<in> set (annotations data). category_id a \<notin> cat_id ` set (categories data)
           \<and> process_split set_order json_load output_dir json_path img_dir split_name w
               = Raised (KeyError (category_id a)) w"
proof -
  from assms(4) have "category_map (categories data) (category_id ann) = None"
    by (simp add: category_map_None)
  from image_categories_raises [of ann "annotations data" "category_map (categories data)" "[]", OF assms(3) this]
  obtain a where a: "a \<in> set (annotations data)"
      "category_map (categories data) (category_id a) = None"
      "image_categories (category_map (categories data)) (annotations data) [] = Inl (KeyError (category_id a))"
    by blast
  from a(2) have "category_id a \<notin> cat_id ` set (categories data)"
    by (simp add: category_map_None)
  moreover from a(3) assms(1,2)
  have "process_split set_order json_load output_dir json_path img_dir split_name w
               = Raised (KeyError (category_id a)) w"
    by (simp add: process_split_def)
  ultimately show ?thesis using a(1) by blast
qed

theorem unknown_category_aborts_witness:
  "process_split id (\<lambda>t. Some data_unknown_category) ''out'' ''coco/ann.json'' ''coco/train2017''
      ''train'' example_world = Raised (KeyError 2) example_world"
proof -
  have 1: "open_read (files example_world) ''coco/ann.json'' = Inr ''J''"
    by (simp add: eval_simps example_world_def example_files_def)
  have 2: "(\<lambda>t. Some data_unknown_category) ''J'' = Some data_unknown_category"
    by simp
  have 3: "\<lparr>image_id = 10, category_id = 2\<rparr> \<in> set (annotations data_unknown_category)"
    by (simp add: data_unknown_category_def)
  have 4: "category_id \<lparr>image_id = 10, category_id = 2\<rparr> \<notin> cat_id ` set (categories data_unknown_category)"
    by (simp add: data_unknown_category_def)
  from unknown_category_aborts [OF 1 2 3 4, of id "''out''" "''coco/train2017''" "''train''"]
  show ?thesis
    by (auto simp: data_unknown_category_def)
qed

text \<open>C4. An image id that no annotation mentions is never copied: whatever the outcome
  of \<open>process_split\<close>, none of the copies it made is a copy of that image. This holds
  in particular for every image of the images list that has no annotation.\<close>

theorem unannotated_image_never_copied:
  assumes "open_read (files w) json_path = Inr text"
    and "json_load text = Some data"
    and "i \<notin> image_id ` set (annotations data)"
  shows "\<forall>e \<in> set (copies_since w
            (process_split set_order json_load output_dir json_path img_dir split_name w)). fst e \<noteq> i"
proof (cases "image_categories (category_map (categories data)) (annotations data) []")
  case (Inl err)
  with assms(1,2) show ?thesis by (simp add: process_split_def)
next
  case (Inr ic)
  have keys: "fst ` set ic = image_id ` set (annotations data)"
    using image_categories_keys [OF Inr] by simp
  show ?thesis
  proof
    fix e
    assume "e \<in> set (copies_since w
            (process_split set_order json_load output_dir json_path img_dir split_name w))"
    with Inr assms(1,2)
    have "e \<in> set (copies_since w (process_images set_order output_dir img_dir split_name
                 (image_map (images data)) ic w))"
      by (simp add: process_split_def)
    then obtain item where "item \<in> set ic" "copy_of_item set_order output_dir img_dir split_name
                 (image_map (images data)) item e"
      using copies_since_process_images by blast
    then have "fst e \<in> fst ` set ic"
      by (auto dest: copy_of_item_fst)
    with keys assms(3) show "fst e \<noteq> i" by auto
  qed
qed

theorem unannotated_image_never_copied_witness:
  "copies_since example_world
     (process_split id (\<lambda>t. Some data_unannotated) ''out'' ''coco/ann.json'' ''coco/train2017''
        ''train'' example_world) = [(10, ''coco/train2017/a.jpg'', ''out/train/dent/a.jpg'')]
   \<and> filter (\<lambda>e. fst e = 11) (copies_since example_world
     (process_split id (\<lambda>t. Some data_unannotated) ''out'' ''coco/ann.json'' ''coco/train2017''
        ''train'' example_world)) = []"
proof -
  have 1: "open_read (files example_world) ''coco/ann.json'' = Inr ''J''"
    by (simp add: eval_simps example_world_def example_files_def)
  have 2: "(\<lambda>t. Some data_unannotated) ''J'' = Some data_unannotated"
    by simp
  have 3: "11 \<notin> image_id ` set (annotations data_unannotated)"
    by (simp add: data_unannotated_def)
  have 4: "copies_since example_world
     (process_split id (\<lambda>t. Some data_unannotated) ''out'' ''coco/ann.json'' ''coco/train2017''
        ''train'' example_world) = [(10, ''coco/train2017/a.jpg'', ''out/train/dent/a.jpg'')]"
    by (simp add: eval_simps copies_since_def example_world_def example_files_def data_unannotated_def)
  have 5: "filter (\<lambda>e. fst e = 11) (copies_since example_world
     (process_split id (\<lambda>t. Some data_unannotated) ''out'' ''coco/ann.json'' ''coco/train2017''
        ''train'' example_world)) = []"
    using unannotated_image_never_copied [OF 1 2 3, of id "''out''" "''coco/train2017''" "''train''"]
    by (simp add: filter_empty_conv)
  from 4 5 show ?thesis by simp
qed

text \<open>C5. Running the converter twice on the same input should leave the output tree of
  the first run. It does not when an image has two categories and the two interpreter
  runs iterate the set of its category names in different orders, as the random hash
  seed of each run allows: in the example the first run puts \<open>a.jpg\<close> into
  \<open>out/train/dent\<close> only, and after the second run it is in \<open>out/train/dent\<close> and in
  \<open>out/train/scratch\<close>. The comments of the script speak of a list of category names and
  of the first category found; the set it uses does not keep that order.\<close>

theorem rerun_changes_output:
  "set_iteration id \<and> set_iteration rev
   \<and> convert_cardd_to_directory id conv_load ''data'' ''out'' conv_world = Done first_run
   \<and> files first_run [''out'', ''train'', ''dent'', ''a.jpg''] = Some (File ''JPEG'' 7)
   \<and> files first_run [''out'', ''train'', ''scratch''] = None
   \<and> files first_run [''out'', ''train'', ''scratch'', ''a.jpg''] = None
   \<and> files (world_of (convert_cardd_to_directory rev conv_load ''data'' ''out'' first_run))
        [''out'', ''train'', ''dent'', ''a.jpg''] = Some (File ''JPEG'' 7)
   \<and> files (world_of (convert_cardd_to_directory rev conv_load ''data'' ''out'' first_run))
        [''out'', ''train'', ''scratch''] = Some Dir
   \<and> files (world_of (convert_cardd_to_directory rev conv_load ''data'' ''out'' first_run))
        [''out'', ''train'', ''scratch'', ''a.jpg''] = Some (File ''JPEG'' 7)"
proof -
  have 1: "convert_cardd_to_directory id conv_load ''data'' ''out'' conv_world = Done first_run"
    by (rule first_run_outcome)
  have 2: "files first_run [''out'', ''train'', ''dent'', ''a.jpg''] = Some (File ''JPEG'' 7)"
    "files first_run [''out'', ''train'', ''scratch''] = None"
    "files first_run [''out'', ''train'', ''scratch'', ''a.jpg''] = None"
    by (simp_all add: first_run_def conv_files_def)
  have 3: "files (world_of (convert_cardd_to_directory rev conv_load ''data'' ''out'' first_run))
      = conv_files([''out''] \<mapsto> Dir, [''out'', ''train''] \<mapsto> Dir,
        [''out'', ''val''] \<mapsto> Dir, [''out'', ''test''] \<mapsto> Dir,
        [''out'', ''train'', ''dent''] \<mapsto> Dir,
        [''out'', ''train'', ''dent'', ''a.jpg''] \<mapsto> File ''JPEG'' 7,
        [''out'', ''train'', ''scratch''] \<mapsto> Dir,
        [''out'', ''train'', ''scratch'', ''a.jpg''] \<mapsto> File ''JPEG'' 7)"
    by (simp add: eval_simps conv_simps first_run_def)
  have 4: "set_iteration id" "set_iteration rev"
    by (simp_all add: set_iteration_def)
  show ?thesis
    unfolding 3 using 1 2 4 by simp
qed

text \<open>C6. Every annotation has a category of the categories list. An annotated image
  of the images list whose source path does not exist at the end of the call, hence at
  no moment of it, is not copied: the copy loop runs over the images before it, calls
  \<open>os.makedirs\<close> for its category directory and goes on with the images after it, with
  no copy, no line of output and no error for this image other than that of
  \<open>os.makedirs\<close>. In the second example a regular file has the name of the category
  directory and the call fails with \<open>FileExistsError\<close>.\<close>

theorem missing_source_skipped:
  assumes "set_iteration set_order"
    and "open_read (files w) json_path = Inr text"
    and "json_load text = Some data"
    and "\<forall>a \<in> set (annotations data). category_id a \<in> cat_id ` set (categories data)"
    and "ann \<in> set (annotations data)"
    and "image_map (images data) (image_id ann) = Some filename"
    and "\<not> os_path_exists
            (files (world_of (process_split set_order json_load output_dir json_path img_dir
                                split_name w)))
            (os_path_join img_dir [filename])"
  shows "\<exists>pre s post.
           image_categories (category_map (categories data)) (annotations data) []
             = Inr (pre @ (image_id ann, s) # post)
         \<and> process_split set_order json_load output_dir json_path img_dir split_name w
             = and_then (process_images set_order output_dir img_dir split_name
                           (image_map (images data)) pre w)
                 (\<lambda>w1. case os_makedirs (files w1)
                               (os_path_join output_dir [split_name, hd (set_order s)]) of
                          Inl (e, f1) \<Rightarrow> Raised e (w1\<lparr>files := f1\<rparr>)
                        | Inr f1 \<Rightarrow> process_images set_order output_dir img_dir split_name
                                     (image_map (images data)) post (w1\<lparr>files := f1\<rparr>))
         \<and> filter (\<lambda>e. fst e = image_id ann)
              (copies_since w (process_split set_order json_load output_dir json_path img_dir
                                 split_name w)) = []"
proof -
  let ?cm = "category_map (categories data)"
  let ?im = "image_map (images data)"
  let ?P = "process_images set_order output_dir img_dir split_name ?im"
  let ?out = "process_split set_order json_load output_dir json_path img_dir split_name w"
  let ?src = "os_path_join img_dir [filename]"
  let ?i = "image_id ann"
  obtain ic where ic: "image_categories ?cm (annotations data) [] = Inr ic"
  proof (cases "image_categories ?cm (annotations data) []")
    case (Inl e)
    from image_categories_Inl [OF Inl] assms(4) show ?thesis
      by (auto simp: category_map_None)
  qed
  from image_categories_split [OF ic assms(5)] obtain pre s post where
    split: "ic = pre @ (?i, s) # post" and np: "?i \<notin> fst ` set pre" "?i \<notin> fst ` set post"
    by blast
  from ic split have e: "image_categories ?cm (annotations data) [] = Inr (pre @ (?i, s) # post)"
    by simp
  from image_categories_entry(2) [OF e] have "s \<noteq> []" .
  from set_iteration_nonempty [OF assms(1) this]
  obtain c cs where so: "set_order s = c # cs" by blast
  then have hc: "hd (set_order s) = c" by simp
  note body = process_image_unfold [of "?im" "?i" filename set_order s c cs, OF assms(6) so]
  let ?c = "c"
  let ?cdir = "os_path_join output_dir [split_name, ?c]"
  let ?dst = "os_path_join ?cdir [filename]"
  let ?K = "\<lambda>w1. case os_makedirs (files w1) ?cdir of
                   Inl (e, f1) \<Rightarrow> Raised e (w1\<lparr>files := f1\<rparr>)
                 | Inr f1 \<Rightarrow> ?P post (w1\<lparr>files := f1\<rparr>)"
  have out: "?out = and_then (?P pre w) (?P ((?i, s) # post))"
    using assms(2,3) ic split by (simp add: process_split_def process_images_append)
  have step: "?P ((?i, s) # post) w1 = ?K w1" if pre: "?P pre w = Done w1" for w1
  proof (cases "os_makedirs (files w1) ?cdir")
    case (Inl ef)
    then show ?thesis
      by (cases ef) (simp add: body)
  next
    case (Inr f1)
    have final: "?out = ?P ((?i, s) # post) w1"
      unfolding out pre by simp
    have absent: "\<not> os_path_exists f1 ?src"
    proof
      assume ex: "os_path_exists f1 ?src"
      show False
      proof (cases "shutil_copy2 f1 ?src ?dst")
        case (Inl err)
        have "process_image set_order output_dir img_dir split_name ?im (?i, s) w1
                = Raised err (w1\<lparr>files := f1\<rparr>)"
          using Inr ex Inl by (simp add: body)
        then have "files (world_of ?out) = f1"
          unfolding final by simp
        with ex assms(7) show False by simp
      next
        case (Inr f2) note copy = this
        obtain w2 where w2: "process_image set_order output_dir img_dir split_name ?im (?i, s) w1
                = Done w2" "files w2 = f2"
          using \<open>os_makedirs (files w1) ?cdir = Inr f1\<close> ex copy
          by (simp add: body print_def)
        then have "?out = ?P post w2"
          unfolding final by simp
        then have "grows f2 (files (world_of ?out))"
          using process_images_grows [of w2 set_order output_dir img_dir split_name ?im post] w2(2)
          by simp
        moreover have "grows f1 f2"
          using copy by (rule shutil_copy2_grows)
        ultimately have "os_path_exists (files (world_of ?out)) ?src"
          using ex grows_exists by blast
        with assms(7) show False by simp
      qed
    qed
    show ?thesis
      using Inr absent by (simp add: body)
  qed
  have run: "?out = and_then (?P pre w) ?K"
    unfolding out by (rule and_then_cong_Done) (rule step)
  have "filter (\<lambda>e. fst e = ?i) (copies_since w (and_then (?P pre w) ?K)) = []"
  proof (rule copies_since_and_then [OF refl])
    show "filter (\<lambda>e. fst e = ?i) (copies_since w (?P pre w)) = []"
      using np(1) by (rule process_images_no_copy)
  next
    fix w1
    assume "?P pre w = Done w1"
    show "\<exists>new. copied (world_of (?K w1)) = copied w1 @ new \<and> filter (\<lambda>e. fst e = ?i) new = []"
    proof (cases "os_makedirs (files w1) ?cdir")
      case (Inl ef)
      then show ?thesis by (cases ef) simp
    next
      case (Inr f1)
      have "copied (world_of (?P post (w1\<lparr>files := f1\<rparr>)))
              = copied w1 @ copies_since (w1\<lparr>files := f1\<rparr>) (?P post (w1\<lparr>files := f1\<rparr>))"
        using copied_process_images [of set_order output_dir img_dir split_name ?im post
            "w1\<lparr>files := f1\<rparr>"] by simp
      moreover have "filter (\<lambda>e. fst e = ?i)
          (copies_since (w1\<lparr>files := f1\<rparr>) (?P post (w1\<lparr>files := f1\<rparr>))) = []"
        using np(2) by (rule process_images_no_copy)
      ultimately show ?thesis using Inr by simp
    qed
  qed
  with run have "filter (\<lambda>e. fst e = ?i) (copies_since w ?out) = []" by simp
  with e run show ?thesis unfolding hc [symmetric] by blast
qed

theorem missing_source_skipped_witness:
  "\<not> os_path_exists (files example_world) ''coco/train2017/b.jpg''
   \<and> image_categories (category_map (categories data_absent)) (annotations data_absent) []
        = Inr [(11, [''dent''])]
   \<and> os_makedirs (files example_world) ''out/train/dent''
        = Inr (example_files([''out''] \<mapsto> Dir, [''out'', ''train''] \<mapsto> Dir,
                 [''out'', ''train'', ''dent''] \<mapsto> Dir))
   \<and> process_split id (\<lambda>t. Some data_absent) ''out'' ''coco/ann.json'' ''coco/train2017''
        ''train'' example_world
     = Done \<lparr>files = example_files([''out''] \<mapsto> Dir, [''out'', ''train''] \<mapsto> Dir,
               [''out'', ''train'', ''dent''] \<mapsto> Dir),
             stdout = [], copied = []\<rparr>"
proof -
  have 0: "set_iteration id"
    by (simp add: set_iteration_def)
  have 1: "open_read (files example_world) ''coco/ann.json'' = Inr ''J''"
    by (simp add: eval_simps example_world_def example_files_def)
  have 2: "(\<lambda>t. Some data_absent) ''J'' = Some data_absent"
    by simp
  have 3: "\<forall>a \<in> set (annotations data_absent). category_id a \<in> cat_id ` set (categories data_absent)"
    by (simp add: data_absent_def)
  have 4: "\<lparr>image_id = 11, category_id = 1\<rparr> \<in> set (annotations data_absent)"
    by (simp add: data_absent_def)
  have 5: "image_map (images data_absent) (image_id \<lparr>image_id = 11, category_id = 1\<rparr>) = Some ''b.jpg''"
    by (simp add: image_map_def data_absent_def)
  have 6: "process_split id (\<lambda>t. Some data_absent) ''out'' ''coco/ann.json'' ''coco/train2017''
        ''train'' example_world
     = Done \<lparr>files = example_files([''out''] \<mapsto> Dir, [''out'', ''train''] \<mapsto> Dir,
               [''out'', ''train'', ''dent''] \<mapsto> Dir),
             stdout = [], copied = []\<rparr>"
    by (simp add: eval_simps example_world_def example_files_def data_absent_def)
  have 7: "\<not> os_path_exists
            (files (world_of (process_split id (\<lambda>t. Some data_absent) ''out'' ''coco/ann.json''
                                ''coco/train2017'' ''train'' example_world)))
            (os_path_join ''coco/train2017'' [''b.jpg''])"
    unfolding 6 by (simp add: eval_simps example_files_def)
  have 8: "\<not> os_path_exists (files example_world) ''coco/train2017/b.jpg''"
    by (simp add: eval_simps example_world_def example_files_def)
  have 9: "image_categories (category_map (categories data_absent)) (annotations data_absent) []
        = Inr [(11, [''dent''])]"
    by (simp add: eval_simps data_absent_def)
  have 10: "os_makedirs (files example_world) ''out/train/dent''
        = Inr (example_files([''out''] \<mapsto> Dir, [''out'', ''train''] \<mapsto> Dir,
                 [''out'', ''train'', ''dent''] \<mapsto> Dir))"
    by (simp add: eval_simps example_world_def example_files_def)
  from missing_source_skipped [OF 0 1 2 3 4 5 7] 6 8 9 10
  show ?thesis by simp
qed

theorem missing_source_skipped_counterexample:
  "\<lparr>image_id = 11, category_id = 1\<rparr> \<in> set (annotations data_absent)
   \<and> image_map (images data_absent) 11 = Some ''b.jpg''
   \<and> \<not> os_path_exists (files blocked_world) ''coco/train2017/b.jpg''
   \<and> open_read (files blocked_world) ''coco/ann.json'' = Inr ''J''
   \<and> process_split id (\<lambda>t. Some data_absent) ''out'' ''coco/ann.json'' ''coco/train2017''
        ''train'' blocked_world
      = Raised FileExistsError blocked_world"
  by (simp add: eval_simps blocked_world_def blocked_files_def example_files_def data_absent_def)

text \<open>C7. When an annotation names an image id that is no id of the images list,
  \<open>process_split\<close> does not complete. Either the annotation loop raises \<open>KeyError\<close> for a
  category id that is no id of the categories list, or the copy loop runs over the images
  that come before this one in \<open>image_categories\<close> and, when it gets through them, raises
  \<open>KeyError\<close> for the image id. When the loop fails at an earlier image, the call ends with
  that error, which need not be a lookup error: in the second example it is the
  \<open>FileExistsError\<close> of \<open>os.makedirs\<close>.\<close>

theorem missing_image_aborts:
  assumes "open_read (files w) json_path = Inr text"
    and "json_load text = Some data"
    and "ann \<in> set (annotations data)"
    and "image_id ann \<notin> img_id ` set (images data)"
  shows "(\<exists>e w'. process_split set_order json_load output_dir json_path img_dir split_name w
                  = Raised e w')
       \<and> ((\<exists>a \<in> set (annotations data). category_id a \<notin> cat_id ` set (categories data)
              \<and> process_split set_order json_load output_dir json_path img_dir split_name w
                  = Raised (KeyError (category_id a)) w)
          \<or> (\<exists>pre s post.
                image_categories (category_map (categories data)) (annotations data) []
                  = Inr (pre @ (image_id ann, s) # post)
              \<and> process_split set_order json_load output_dir json_path img_dir split_name w
                  = and_then (process_images set_order output_dir img_dir split_name
                                (image_map (images data)) pre w)
                      (Raised (KeyError (image_id ann)))))"
proof (cases "image_categories (category_map (categories data)) (annotations data) []")
  case (Inl err)
  then obtain a where a: "a \<in> set (annotations data)"
      "category_map (categories data) (category_id a) = None" "err = KeyError (category_id a)"
    using image_categories_Inl by blast
  have "process_split set_order json_load output_dir json_path img_dir split_name w
          = Raised (KeyError (category_id a)) w"
    using Inl a(3) assms(1,2) by (simp add: process_split_def)
  moreover have "category_id a \<notin> cat_id ` set (categories data)"
    using a(2) by (simp add: category_map_None)
  ultimately show ?thesis using a(1) by blast
next
  case (Inr ic)
  from image_categories_split [OF Inr assms(3)] obtain pre s post where
    ic: "ic = pre @ (image_id ann, s) # post" by blast
  have none: "image_map (images data) (image_id ann) = None"
    using assms(4) by (simp add: image_map_None)
  have body: "process_images set_order output_dir img_dir split_name (image_map (images data))
                ((image_id ann, s) # post) = Raised (KeyError (image_id ann))"
    by (rule ext) (simp add: process_image_def none)
  have run: "process_split set_order json_load output_dir json_path img_dir split_name w
          = and_then (process_images set_order output_dir img_dir split_name
                        (image_map (images data)) pre w)
              (Raised (KeyError (image_id ann)))"
    using Inr assms(1,2) by (simp add: process_split_def ic process_images_append body)
  moreover from run and_then_Raised
  have "\<exists>e w'. process_split set_order json_load output_dir json_path img_dir split_name w
                  = Raised e w'"
    by simp
  ultimately show ?thesis using Inr ic by blast
qed

theorem missing_image_aborts_witness:
  "\<lparr>image_id = 12, category_id = 1\<rparr> \<in> set (annotations data_missing_image)
   \<and> 12 \<notin> img_id ` set (images data_missing_image)
   \<and> image_categories (category_map (categories data_missing_image))
        (annotations data_missing_image) [] = Inr ([(10, [''dent''])] @ (12, [''dent'']) # [])
   \<and> process_split id (\<lambda>t. Some data_missing_image) ''out'' ''coco/ann.json'' ''coco/train2017''
      ''train'' example_world
     = Raised (KeyError 12)
         \<lparr>files = example_files([''out''] \<mapsto> Dir, [''out'', ''train''] \<mapsto> Dir,
             [''out'', ''train'', ''dent''] \<mapsto> Dir,
             [''out'', ''train'', ''dent'', ''a.jpg''] \<mapsto> File ''JPEG'' 7),
          stdout = [''Copied a.jpg to train/dent/''],
          copied = [(10, ''coco/train2017/a.jpg'', ''out/train/dent/a.jpg'')]\<rparr>"
proof -
  have 1: "open_read (files example_world) ''coco/ann.json'' = Inr ''J''"
    by (simp add: eval_simps example_world_def example_files_def)
  have 2: "(\<lambda>t. Some data_missing_image) ''J'' = Some data_missing_image"
    by simp
  have 3: "\<lparr>image_id = 12, category_id = 1\<rparr> \<in> set (annotations data_missing_image)"
    by (simp add: data_missing_image_def)
  have 4: "image_id \<lparr>image_id = 12, category_id = 1\<rparr> \<notin> img_id ` set (images data_missing_image)"
    by (simp add: data_missing_image_def)
  have 5: "image_categories (category_map (categories data_missing_image))
        (annotations data_missing_image) [] = Inr ([(10, [''dent''])] @ (12, [''dent'']) # [])"
    by (simp add: data_missing_image_def category_map_def set_add_def)
  have 6: "process_split id (\<lambda>t. Some data_missing_image) ''out'' ''coco/ann.json'' ''coco/train2017''
      ''train'' example_world
     = Raised (KeyError 12)
         \<lparr>files = example_files([''out''] \<mapsto> Dir, [''out'', ''train''] \<mapsto> Dir,
             [''out'', ''train'', ''dent''] \<mapsto> Dir,
             [''out'', ''train'', ''dent'', ''a.jpg''] \<mapsto> File ''JPEG'' 7),
          stdout = [''Copied a.jpg to train/dent/''],
          copied = [(10, ''coco/train2017/a.jpg'', ''out/train/dent/a.jpg'')]\<rparr>"
    by (simp add: eval_simps example_world_def example_files_def data_missing_image_def)
  from missing_image_aborts [OF 1 2 3 4, of id "''out''" "''coco/train2017''" "''train''"] 3 4 5 6
  show ?thesis by simp
qed

theorem missing_image_aborts_counterexample:
  "\<lparr>image_id = 12, category_id = 1\<rparr> \<in> set (annotations data_missing_image)
   \<and> 12 \<notin> img_id ` set (images data_missing_image)
   \<and> open_read (files blocked_world) ''coco/ann.json'' = Inr ''J''
   \<and> process_split id (\<lambda>t. Some data_missing_image) ''out'' ''coco/ann.json'' ''coco/train2017''
      ''train'' blocked_world
     = Raised FileExistsError blocked_world"
  by (simp add: eval_simps blocked_world_def blocked_files_def example_files_def
        data_missing_image_def)






text \<open>C10, as the code has it. Let \<open>coco_dir\<close> and \<open>output_dir\<close> be simple paths taken from
  the same place (both absolute, or both relative with the same number of leading \<open>..\<close>),
  neither of them inside the other, and let the category names and the file names of
  the three annotation files be plain names. Then every change that the converter makes
  to the file system is at \<open>output_dir\<close> or below it, or is the creation of a missing
  directory on the way to \<open>output_dir\<close>; nothing at \<open>coco_dir\<close> or below it is created,
  changed or removed, whatever the outcome of the run. Without these conditions the
  claim fails: with \<open>output_dir\<close> inside \<open>coco_dir\<close> the converter makes directories below
  \<open>coco_dir\<close>, and a category name that is an absolute path takes the copy out of
  \<open>output_dir\<close>.\<close>

theorem writes_confined:
  assumes "set_iteration set_order"
    and "simple_path coco_dir" and "simple_path output_dir"
    and "start_key coco_dir = start_key output_dir"
    and "takeWhile (\<lambda>c. c = ''..'') (components coco_dir)
           = takeWhile (\<lambda>c. c = ''..'') (components output_dir)"
    and "\<not> prefix (path_key coco_dir) (path_key output_dir)"
    and "\<not> prefix (path_key output_dir) (path_key coco_dir)"
    and "reads_plain_names json_load (files w)
           (os_path_join coco_dir [''annotations'', ''instances_train2017.json''])"
    and "reads_plain_names json_load (files w)
           (os_path_join coco_dir [''annotations'', ''instances_val2017.json''])"
    and "reads_plain_names json_load (files w)
           (os_path_join coco_dir [''annotations'', ''instances_test2017.json''])"
  shows "confined (path_key output_dir) (files w)
           (files (world_of (convert_cardd_to_directory set_order json_load coco_dir output_dir w)))
       \<and> (\<forall>k. prefix (path_key coco_dir) k \<longrightarrow>
             files (world_of (convert_cardd_to_directory set_order json_load coco_dir output_dir w)) k
               = files w k)"
proof -
  let ?od = output_dir
  let ?ko = "path_key output_dir"
  have later: "reads_plain_names json_load (files w1) (os_path_join coco_dir [''annotations'', n])"
    if "reads_plain_names json_load (files w) (os_path_join coco_dir [''annotations'', n])"
      and "plain_name n" and "confined ?ko (files w) (files w1)" for n and w1 :: world
  proof -
    have "prefix (path_key coco_dir) (path_key (os_path_join coco_dir [''annotations'', n]))"
      unfolding annotation_path(2) [OF assms(2) that(2)] by simp
    with that(3) assms(6,7)
    have "files w1 (path_key (os_path_join coco_dir [''annotations'', n]))
            = files w (path_key (os_path_join coco_dir [''annotations'', n]))"
      by (rule confined_outside)
    with that(1) show ?thesis by (rule reads_plain_names_same)
  qed
  have split: "confined ?ko (files w1)
      (files (world_of (process_split set_order json_load ?od
          (os_path_join coco_dir [''annotations'', n]) idir sp (print s w1))))"
    if "reads_plain_names json_load (files w) (os_path_join coco_dir [''annotations'', n])"
      and "plain_name n" and "plain_name sp" and "confined ?ko (files w) (files w1)"
    for n idir sp s and w1 :: world
  proof -
    have "reads_plain_names json_load (files (print s w1)) (os_path_join coco_dir [''annotations'', n])"
      using later [OF that(1,2,4)] by (simp add: files_print)
    from process_split_confined [OF assms(1,3) that(3) annotation_path(1) [OF assms(2) that(2)] this,
        of idir]
    show ?thesis by (simp add: files_print)
  qed
  have dirs: "confined ?ko (files w)
      (files (world_of (make_split_dirs ?od [''train'', ''val'', ''test''] w)))"
    using assms(3) by (rule make_split_dirs_confined) (simp add: plain_name_literals)
  have c: "confined ?ko (files w)
           (files (world_of (convert_cardd_to_directory set_order json_load coco_dir ?od w)))"
    unfolding convert_cardd_to_directory_def Let_def
  proof (rule and_then_confined [OF dirs])
    fix w1 :: world
    assume c1: "confined ?ko (files w) (files w1)"
    show "confined ?ko (files w1)
       (files (world_of (and_then (process_split set_order json_load ?od
           (os_path_join coco_dir [''annotations'', ''instances_train2017.json''])
           (os_path_join coco_dir [''train2017'']) ''train'' (print ''Processing training set...'' w1))
         (\<lambda>w. and_then (process_split set_order json_load ?od
           (os_path_join coco_dir [''annotations'', ''instances_val2017.json''])
           (os_path_join coco_dir [''val2017'']) ''val''
             (print (newline # ''Processing validation set...'') w))
         (\<lambda>w. and_then (process_split set_order json_load ?od
           (os_path_join coco_dir [''annotations'', ''instances_test2017.json''])
           (os_path_join coco_dir [''test2017'']) ''test''
             (print (newline # ''Processing test set...'') w))
         (\<lambda>w. Done (print (newline # ''Conversion complete! Dataset saved to: '' @ ?od) w)))))))"
    proof (rule and_then_confined [OF split [OF assms(8) plain_name_literals(5) plain_name_literals(1) c1]])
      fix w2 :: world
      assume "confined ?ko (files w1) (files w2)"
      with c1 have c2: "confined ?ko (files w) (files w2)" by (rule confined_trans)
      show "confined ?ko (files w2)
       (files (world_of (and_then (process_split set_order json_load ?od
           (os_path_join coco_dir [''annotations'', ''instances_val2017.json''])
           (os_path_join coco_dir [''val2017'']) ''val''
             (print (newline # ''Processing validation set...'') w2))
         (\<lambda>w. and_then (process_split set_order json_load ?od
           (os_path_join coco_dir [''annotations'', ''instances_test2017.json''])
           (os_path_join coco_dir [''test2017'']) ''test''
             (print (newline # ''Processing test set...'') w))
         (\<lambda>w. Done (print (newline # ''Conversion complete! Dataset saved to: '' @ ?od) w))))))"
      proof (rule and_then_confined [OF split [OF assms(9) plain_name_literals(6) plain_name_literals(2) c2]])
        fix w3 :: world
        assume "confined ?ko (files w2) (files w3)"
        with c2 have c3: "confined ?ko (files w) (files w3)" by (rule confined_trans)
        show "confined ?ko (files w3)
         (files (world_of (and_then (process_split set_order json_load ?od
           (os_path_join coco_dir [''annotations'', ''instances_test2017.json''])
           (os_path_join coco_dir [''test2017'']) ''test''
             (print (newline # ''Processing test set...'') w3))
         (\<lambda>w. Done (print (newline # ''Conversion complete! Dataset saved to: '' @ ?od) w)))))"
        proof (rule and_then_confined [OF split [OF assms(10) plain_name_literals(7) plain_name_literals(3) c3]])
          fix w4 :: world
          show "confined ?ko (files w4)
            (files (world_of (Done (print (newline # ''Conversion complete! Dataset saved to: '' @ ?od) w4))))"
            by (simp add: confined_refl files_print)
        qed
      qed
    qed
  qed
  moreover have "files (world_of (convert_cardd_to_directory set_order json_load coco_dir ?od w)) k
               = files w k" if "prefix (path_key coco_dir) k" for k
    using c assms(6,7) that by (rule confined_outside)
  ultimately show ?thesis by blast
qed

theorem writes_confined_witness:
  "convert_cardd_to_directory id conv_load ''data'' ''out'' conv_world = Done first_run
   \<and> path_key ''data'' = [''data''] \<and> path_key ''out'' = [''out'']
   \<and> (\<forall>k. files first_run (''data'' # k) = files conv_world (''data'' # k))
   \<and> files first_run [''data'', ''train2017'', ''a.jpg''] = Some (File ''JPEG'' 7)
   \<and> files first_run [''out'', ''train'', ''dent'', ''a.jpg''] = Some (File ''JPEG'' 7)"
proof -
  have 1: "set_iteration id"
    by (simp add: set_iteration_def)
  have k: "path_key ''data'' = [''data'']" "path_key ''out'' = [''out'']"
    by (simp_all add: path_key_def components_def start_key_def sep_def)
  have 2: "simple_path ''data''" and 3: "simple_path ''out''"
    by (simp_all add: simple_path_def components_def plain_name_def sep_def)
  have 4: "start_key ''data'' = start_key ''out''"
    by (simp add: start_key_def sep_def)
  have 5: "takeWhile (\<lambda>c. c = ''..'') (components ''data'')
           = takeWhile (\<lambda>c. c = ''..'') (components ''out'')"
    by (simp add: components_def sep_def)
  have 6: "\<not> prefix (path_key ''data'') (path_key ''out'')"
    and 7: "\<not> prefix (path_key ''out'') (path_key ''data'')"
    unfolding k by simp_all
  have p: "plain_names data_two" "plain_names data_none"
    by (simp_all add: plain_names_def plain_name_def sep_def data_two_def data_none_def)
  have j: "path_key (os_path_join ''data'' [''annotations'', n]) = [''data'', ''annotations'', n]"
    if "plain_name n" for n
    using annotation_path(2) [OF 2 that] k by simp
  have 8: "reads_plain_names conv_load (files conv_world)
           (os_path_join ''data'' [''annotations'', ''instances_train2017.json''])"
    and 9: "reads_plain_names conv_load (files conv_world)
           (os_path_join ''data'' [''annotations'', ''instances_val2017.json''])"
    and 10: "reads_plain_names conv_load (files conv_world)
           (os_path_join ''data'' [''annotations'', ''instances_test2017.json''])"
    using p by (auto simp: reads_plain_names_def j plain_name_literals conv_load_def
                  split: if_splits)
  have 11: "convert_cardd_to_directory id conv_load ''data'' ''out'' conv_world = Done first_run"
    by (rule first_run_outcome)
  have 12: "files first_run [''data'', ''train2017'', ''a.jpg''] = Some (File ''JPEG'' 7)"
    "files first_run [''out'', ''train'', ''dent'', ''a.jpg''] = Some (File ''JPEG'' 7)"
    by (simp_all add: first_run_def conv_files_def)
  from writes_confined [OF 1 2 3 4 5 6 7 8 9 10] 11 12 k
  show ?thesis by simp
qed

theorem writes_confined_counterexample:
  "path_key ''data'' = [''data'']
   \<and> path_key ''data/new/out'' = [''data'', ''new'', ''out'']
   \<and> files conv_world [''data'', ''new''] = None
   \<and> files (world_of (convert_cardd_to_directory id abs_load ''data'' ''data/new/out'' conv_world))
        [''data'', ''new''] = Some Dir
   \<and> prefix (path_key ''data'') [''data'', ''new'']
   \<and> files conv_world [''/'', ''tmp'', ''x'', ''a.jpg''] = None
   \<and> files (world_of (convert_cardd_to_directory id abs_load ''data'' ''data/new/out'' conv_world))
        [''/'', ''tmp'', ''x'', ''a.jpg''] = Some (File ''JPEG'' 7)
   \<and> \<not> prefix (path_key ''data/new/out'') [''/'', ''tmp'', ''x'', ''a.jpg'']"
proof -
  have 1: "files (world_of (convert_cardd_to_directory id abs_load ''data'' ''data/new/out'' conv_world))
      = conv_files([''data'', ''new''] \<mapsto> Dir, [''data'', ''new'', ''out''] \<mapsto> Dir,
          [''data'', ''new'', ''out'', ''train''] \<mapsto> Dir,
          [''data'', ''new'', ''out'', ''val''] \<mapsto> Dir,
          [''data'', ''new'', ''out'', ''test''] \<mapsto> Dir,
          [''/'', ''tmp''] \<mapsto> Dir, [''/'', ''tmp'', ''x''] \<mapsto> Dir,
          [''/'', ''tmp'', ''x'', ''a.jpg''] \<mapsto> File ''JPEG'' 7)"
    by (simp add: eval_simps convert_cardd_to_directory_def conv_world_def conv_files_def
          abs_load_def data_absolute_def data_none_def)
  have 2: "path_key ''data'' = [''data'']" "path_key ''data/new/out'' = [''data'', ''new'', ''out'']"
    by (simp_all add: path_key_def components_def start_key_def sep_def)
  show ?thesis
    unfolding 1 2 by (simp add: conv_world_def conv_files_def)
qed


end
